theory Spec2Isabelle
  imports Complex_Main "HOL-Library.Multiset"
begin

section \<open>The arena game of gemini\_agario.py\<close>

text \<open>
  A shallow embedding of the simulation core of \<^verbatim>\<open>gemini_agario.py\<close>: the classes
  \<^verbatim>\<open>GameObject\<close>, \<^verbatim>\<open>Food\<close> and \<^verbatim>\<open>Player\<close>, the function \<^verbatim>\<open>spawn_food\<close> and the
  state updates of one frame of \<^verbatim>\<open>main\<close>.

  Python's floats are modelled by the real numbers, so rounding, infinities and NaN are
  outside the model. Mutation is explicit state passing. The exceptions the code can
  raise are values: \<^verbatim>\<open>math.sqrt\<close> of a negative number raises \<^verbatim>\<open>ValueError\<close>, a division
  by zero raises \<^verbatim>\<open>ZeroDivisionError\<close>, \<^verbatim>\<open>list.pop\<close> out of range raises \<^verbatim>\<open>IndexError\<close>.
  Where statements have assigned to an object before the exception is raised, the
  error value holds the objects as the raise leaves them. A Python \<^verbatim>\<open>str\<close> that can hold
  any text is the list of its code points.
  The random module is an explicit source of samples that is passed along with a
  counter of the samples used.
\<close>

subsection \<open>Constants\<close>

definition SCREEN_WIDTH :: real where "SCREEN_WIDTH = 800"
definition SCREEN_HEIGHT :: real where "SCREEN_HEIGHT = 600"
definition WORLD_WIDTH :: real where "WORLD_WIDTH = 2000"
definition WORLD_HEIGHT :: real where "WORLD_HEIGHT = 2000"
definition FOOD_COUNT :: nat where "FOOD_COUNT = 200"
definition INITIAL_PLAYER_RADIUS :: real where "INITIAL_PLAYER_RADIUS = 20"
definition PLAYER_SPEED_FACTOR :: real where "PLAYER_SPEED_FACTOR = 1 / 10"
definition MIN_PLAYER_RADIUS :: real where "MIN_PLAYER_RADIUS = 5"
definition FOOD_RADIUS :: real where "FOOD_RADIUS = 5"
definition DESCRIPTION_DURATION :: real where "DESCRIPTION_DURATION = 5"

subsection \<open>Errors\<close>

datatype error = ValueError | ZeroDivisionError | IndexError

text \<open>\<^verbatim>\<open>math.sqrt\<close>: a \<^verbatim>\<open>ValueError\<close> on a negative argument.\<close>

definition math_sqrt :: "real \<Rightarrow> error + real" where
  "math_sqrt v = (if v < 0 then Inl ValueError else Inr (sqrt v))"

subsection \<open>Text\<close>

text \<open>
  A \<^verbatim>\<open>str\<close> is the list of its Unicode code points; \<open>ascii\<close> gives the \<^verbatim>\<open>str\<close> of a
  literal of the program text.
\<close>

type_synonym str = "nat list"

definition ascii :: "string \<Rightarrow> str" where
  "ascii s = map of_char s"

subsection \<open>Game objects\<close>

text \<open>
  \<^verbatim>\<open>GameObject\<close> has the fields \<^verbatim>\<open>x\<close>, \<^verbatim>\<open>y\<close>, \<^verbatim>\<open>radius\<close> and \<^verbatim>\<open>color\<close>; the fields
  \<^verbatim>\<open>x\<close> and \<^verbatim>\<open>y\<close> are named \<open>pos_x\<close> and \<open>pos_y\<close> here. \<^verbatim>\<open>Food\<close> adds no field, and
  \<^verbatim>\<open>Player\<close> extends the object as the subclass does.
\<close>

record game_object =
  pos_x :: real
  pos_y :: real
  radius :: real
  color :: "int \<times> int \<times> int"

type_synonym food = game_object

record player = game_object +
  name :: string
  mass :: real
  target_x :: real
  target_y :: real
  gemini_description :: str
  description_timer :: real

text \<open>\<^verbatim>\<open>Player.__init__\<close>\<close>

definition Player_init :: "string \<Rightarrow> int \<times> int \<times> int \<Rightarrow> player" where
  "Player_init nm col =
     \<lparr>pos_x = 0, pos_y = 0, radius = INITIAL_PLAYER_RADIUS, color = col,
      name = nm, mass = INITIAL_PLAYER_RADIUS\<^sup>2,
      target_x = 0, target_y = 0, gemini_description = [], description_timer = 0\<rparr>"

text \<open>\<^verbatim>\<open>Player.update_target\<close>\<close>

definition update_target :: "player \<Rightarrow> real \<Rightarrow> real \<Rightarrow> real \<Rightarrow> real \<Rightarrow> player" where
  "update_target p mouse_x mouse_y camera_x camera_y =
     p\<lparr>target_x := mouse_x + camera_x, target_y := mouse_y + camera_y\<rparr>"

text \<open>The speed that \<^verbatim>\<open>Player.move\<close> computes in its two assignments to \<^verbatim>\<open>speed\<close>.\<close>

definition move_speed :: "real \<Rightarrow> error + real" where
  "move_speed r =
     (if r = 0 then Inl ZeroDivisionError
      else Inr (max (PLAYER_SPEED_FACTOR * (INITIAL_PLAYER_RADIUS / r)) (1 / 10)))"

text \<open>
  \<^verbatim>\<open>Player.move\<close>. The division by the radius comes before every assignment, so the
  player is as it was when \<^verbatim>\<open>ZeroDivisionError\<close> is raised.
\<close>

definition move :: "player \<Rightarrow> error + player" where
  "move p =
     (let dx = target_x p - pos_x p;
          dy = target_y p - pos_y p;
          distance = sqrt (dx\<^sup>2 + dy\<^sup>2)
      in if distance > 1 then
           (case move_speed (radius p) of
              Inl e \<Rightarrow> Inl e
            | Inr speed \<Rightarrow>
                (let move_x = dx / distance * speed;
                     move_y = dy / distance * speed;
                     x1 = pos_x p + move_x;
                     y1 = pos_y p + move_y
                 in Inr (p\<lparr>pos_x := max (- WORLD_WIDTH / 2 + radius p)
                                       (min (WORLD_WIDTH / 2 - radius p) x1),
                           pos_y := max (- WORLD_HEIGHT / 2 + radius p)
                                       (min (WORLD_HEIGHT / 2 - radius p) y1)\<rparr>)))
         else Inr p)"

text \<open>
  \<^verbatim>\<open>Player.grow\<close>, statement by statement. The first statement has assigned the new mass
  when \<^verbatim>\<open>math.sqrt\<close> raises, so the error holds the player with the new mass and the old
  radius.
\<close>

definition grow :: "player \<Rightarrow> real \<Rightarrow> error \<times> player + player" where
  "grow p mass_increase =
     (let p1 = p\<lparr>mass := mass p + mass_increase\<rparr>
      in case math_sqrt (mass p1) of
           Inl e \<Rightarrow> Inl (e, p1)
         | Inr r \<Rightarrow>
             (let p2 = p1\<lparr>radius := r\<rparr>
              in Inr (p2\<lparr>radius := max (radius p2) MIN_PLAYER_RADIUS\<rparr>)))"

text \<open>
  \<^verbatim>\<open>Player.eat\<close>. The method receives two objects, the player and the food; the result
  holds the returned flag and both objects as the call leaves them. The argument of
  \<^verbatim>\<open>math.sqrt\<close> is a sum of two squares, so this call does not raise. When \<^verbatim>\<open>grow\<close>
  raises, the food is as it was and the player is as \<^verbatim>\<open>grow\<close> left it.
\<close>

definition eat :: "player \<Rightarrow> food \<Rightarrow> error \<times> player + bool \<times> player \<times> food" where
  "eat p f =
     (let distance = sqrt ((pos_x p - pos_x f)\<^sup>2 + (pos_y p - pos_y f)\<^sup>2)
      in if distance < radius p then
           (case grow p ((radius f)\<^sup>2) of
              Inl e \<Rightarrow> Inl e
            | Inr p' \<Rightarrow> Inr (True, p', f))
         else Inr (False, p, f))"

text \<open>\<^verbatim>\<open>Player.update_description_timer\<close>\<close>

definition update_description_timer :: "player \<Rightarrow> real \<Rightarrow> player" where
  "update_description_timer p dt =
     (if description_timer p > 0 then
        (let p1 = p\<lparr>description_timer := description_timer p - dt\<rparr>
         in if description_timer p1 \<le> 0 then p1\<lparr>gemini_description := []\<rparr> else p1)
      else p)"

subsection \<open>The random source and the food\<close>

text \<open>
  One call of \<^verbatim>\<open>Food()\<close> asks the random module for five values: \<^verbatim>\<open>random.uniform\<close>
  twice, each of which draws one \<^verbatim>\<open>random()\<close> value \<open>u\<close> with \<open>0 \<le> u < 1\<close>, and
  \<^verbatim>\<open>random.randint(50, 255)\<close> three times. A sample holds these five values, and the
  random source is the sequence of the samples of the successive calls.
\<close>

record sample =
  u_x :: real
  u_y :: real
  c_r :: int
  c_g :: int
  c_b :: int

type_synonym rng = "nat \<Rightarrow> sample"

definition sample_ok :: "sample \<Rightarrow> bool" where
  "sample_ok s \<longleftrightarrow>
     0 \<le> u_x s \<and> u_x s < 1 \<and> 0 \<le> u_y s \<and> u_y s < 1 \<and>
     50 \<le> c_r s \<and> c_r s \<le> 255 \<and> 50 \<le> c_g s \<and> c_g s \<le> 255 \<and>
     50 \<le> c_b s \<and> c_b s \<le> 255"

text \<open>\<^verbatim>\<open>random.uniform(a, b)\<close> is \<^verbatim>\<open>a + (b - a) * self.random()\<close>.\<close>

definition uniform :: "real \<Rightarrow> real \<Rightarrow> real \<Rightarrow> real" where
  "uniform a b u = a + (b - a) * u"

text \<open>\<^verbatim>\<open>Food.__init__\<close>\<close>

definition Food_init :: "sample \<Rightarrow> food" where
  "Food_init s =
     \<lparr>pos_x = uniform (- WORLD_WIDTH / 2) (WORLD_WIDTH / 2) (u_x s),
      pos_y = uniform (- WORLD_HEIGHT / 2) (WORLD_HEIGHT / 2) (u_y s),
      radius = FOOD_RADIUS,
      color = (c_r s, c_g s, c_b s)\<rparr>"

text \<open>\<^verbatim>\<open>spawn_food\<close>: the loop appends one food per iteration.\<close>

fun spawn_loop :: "nat \<Rightarrow> food list \<Rightarrow> rng \<Rightarrow> nat \<Rightarrow> food list \<times> nat" where
  "spawn_loop 0 food_list g n = (food_list, n)"
| "spawn_loop (Suc k) food_list g n = spawn_loop k (food_list @ [Food_init (g n)]) g (Suc n)"

definition spawn_food :: "nat \<Rightarrow> rng \<Rightarrow> nat \<Rightarrow> food list \<times> nat" where
  "spawn_food cnt g n = spawn_loop cnt [] g n"

subsection \<open>The consumption pass of a frame\<close>

text \<open>
  The first loop of the pass, \<^verbatim>\<open>for i, food in enumerate(food_list)\<close>: it calls
  \<^verbatim>\<open>player.eat\<close> on every food in turn and collects the indices of the eaten ones. The
  foods are returned as the calls leave them. When a call raises, the player is as that
  call left it.
\<close>

fun eat_loop ::
  "player \<Rightarrow> nat \<Rightarrow> food list \<Rightarrow> nat list \<Rightarrow>
     error \<times> player + player \<times> food list \<times> nat list"
where
  "eat_loop p i [] eaten_food_indices = Inr (p, [], eaten_food_indices)"
| "eat_loop p i (f # fs) eaten_food_indices =
     (case eat p f of
        Inl e \<Rightarrow> Inl e
      | Inr (b, p', f') \<Rightarrow>
          (case eat_loop p' (Suc i) fs
                  (if b then eaten_food_indices @ [i] else eaten_food_indices) of
             Inl e \<Rightarrow> Inl e
           | Inr (p'', fs', eaten) \<Rightarrow> Inr (p'', f' # fs', eaten)))"

text \<open>\<^verbatim>\<open>list.pop(i)\<close> for an index that is not negative.\<close>

definition pop :: "'a list \<Rightarrow> nat \<Rightarrow> error + 'a list" where
  "pop xs i = (if i < length xs then Inr (take i xs @ drop (Suc i) xs) else Inl IndexError)"

text \<open>
  The second loop, over \<^verbatim>\<open>sorted(eaten_food_indices, reverse=True)\<close>: it removes the food
  at the index and appends a new one. When \<^verbatim>\<open>pop\<close> raises, the list and the random source
  are as the earlier iterations left them.
\<close>

fun replace_loop ::
  "food list \<Rightarrow> nat list \<Rightarrow> rng \<Rightarrow> nat \<Rightarrow> error \<times> food list \<times> nat + food list \<times> nat"
where
  "replace_loop food_list [] g n = Inr (food_list, n)"
| "replace_loop food_list (i # is) g n =
     (case pop food_list i of
        Inl e \<Rightarrow> Inl (e, food_list, n)
      | Inr food_list' \<Rightarrow> replace_loop (food_list' @ [Food_init (g n)]) is g (Suc n))"

text \<open>The part ``Check for food consumption'' of the loop body of \<^verbatim>\<open>main\<close>.\<close>

definition resolve_consumption ::
  "player \<Rightarrow> food list \<Rightarrow> rng \<Rightarrow> nat \<Rightarrow>
     error \<times> player \<times> food list \<times> nat + player \<times> food list \<times> nat"
where
  "resolve_consumption p food_list g n =
     (case eat_loop p 0 food_list [] of
        Inl (e, p') \<Rightarrow> Inl (e, p', food_list, n)
      | Inr (p', food_list1, eaten_food_indices) \<Rightarrow>
          (case replace_loop food_list1 (rev (sort eaten_food_indices)) g n of
             Inl (e, food_list2, n') \<Rightarrow> Inl (e, p', food_list2, n')
           | Inr (food_list2, n') \<Rightarrow> Inr (p', food_list2, n')))"

subsection \<open>The request of a description\<close>

text \<open>
  The handler of the key G in \<^verbatim>\<open>main\<close>. The outcome of the two statements that call the
  service and read \<^verbatim>\<open>response.text\<close> is a parameter: either the text, or the exception
  that the \<^verbatim>\<open>except Exception\<close> clause catches.

  \<^verbatim>\<open>str.strip()\<close> removes the leading and the trailing white space, and the white space
  of a \<^verbatim>\<open>str\<close> is the code points for which \<^verbatim>\<open>str.isspace\<close> holds: the ASCII ones, the
  next line and the no-break space of Latin-1, and the Unicode spaces and separators.
\<close>

definition is_space :: "nat \<Rightarrow> bool" where
  "is_space c \<longleftrightarrow> c \<in> set [0x09, 0x0A, 0x0B, 0x0C, 0x0D, 0x1C, 0x1D, 0x1E, 0x1F, 0x20,
     0x85, 0xA0, 0x1680, 0x2000, 0x2001, 0x2002, 0x2003, 0x2004, 0x2005, 0x2006, 0x2007,
     0x2008, 0x2009, 0x200A, 0x2028, 0x2029, 0x202F, 0x205F, 0x3000]"

definition strip :: "str \<Rightarrow> str" where
  "strip s = rev (dropWhile is_space (rev (dropWhile is_space s)))"

text \<open>\<^verbatim>\<open>.replace('"', '')\<close>\<close>

definition remove_quotes :: "str \<Rightarrow> str" where
  "remove_quotes s = filter (\<lambda>c. c \<noteq> 0x22) s"

datatype 'e outcome = Raised 'e | Text str

definition request_description ::
  "player \<Rightarrow> bool \<Rightarrow> bool \<Rightarrow> 'e outcome \<Rightarrow> player \<times> bool"
where
  "request_description p gemini_available gemini_request_in_progress response =
     (if gemini_available \<and> \<not> gemini_request_in_progress then
        (let p1 = p\<lparr>gemini_description := ascii ''Getting description...'',
                     description_timer := 2\<rparr>
         in case response of
              Text t \<Rightarrow>
                (p1\<lparr>gemini_description := remove_quotes (strip t),
                    description_timer := DESCRIPTION_DURATION\<rparr>, False)
            | Raised e \<Rightarrow>
                (p1\<lparr>gemini_description := ascii ''Gemini error :('',
                    description_timer := 2\<rparr>, False))
      else (p, gemini_request_in_progress))"

subsection \<open>Notions of the specification\<close>

text \<open>The radius that belongs to a mass: the square root, floored at the minimum radius.\<close>

definition radius_of_mass :: "real \<Rightarrow> real" where
  "radius_of_mass m = max (sqrt m) MIN_PLAYER_RADIUS"

text \<open>The Euclidean distance between the centres of a player and a food.\<close>

definition centre_distance :: "player \<Rightarrow> food \<Rightarrow> real" where
  "centre_distance p f = sqrt ((pos_x p - pos_x f)\<^sup>2 + (pos_y p - pos_y f)\<^sup>2)"

text \<open>The distance from the player to its target, as \<^verbatim>\<open>Player.move\<close> computes it.\<close>

definition target_distance :: "player \<Rightarrow> real" where
  "target_distance p = sqrt ((target_x p - pos_x p)\<^sup>2 + (target_y p - pos_y p)\<^sup>2)"

text \<open>The whole disc of an object lies inside the world.\<close>

definition inside_world :: "'a game_object_scheme \<Rightarrow> bool" where
  "inside_world ob \<longleftrightarrow>
     \<bar>pos_x ob\<bar> \<le> WORLD_WIDTH / 2 - radius ob \<and> \<bar>pos_y ob\<bar> \<le> WORLD_HEIGHT / 2 - radius ob"

text \<open>The centre of an object lies inside the world.\<close>

definition centre_in_world :: "'a game_object_scheme \<Rightarrow> bool" where
  "centre_in_world ob \<longleftrightarrow> \<bar>pos_x ob\<bar> \<le> WORLD_WIDTH / 2 \<and> \<bar>pos_y ob\<bar> \<le> WORLD_HEIGHT / 2"

text \<open>
  A food is within reach of a player when its centre is closer to the centre of the
  player than the radius of the player.
\<close>

definition within_reach :: "player \<Rightarrow> food \<Rightarrow> bool" where
  "within_reach p f \<longleftrightarrow> centre_distance p f < radius p"

text \<open>The mass that the foods within reach of a player carry: the sum of their areas.\<close>

definition reach_gain :: "player \<Rightarrow> food list \<Rightarrow> real" where
  "reach_gain p fs = (\<Sum>f\<leftarrow>filter (within_reach p) fs. (radius f)\<^sup>2)"

text \<open>The indices, counted from \<open>i\<close>, of the foods of a list that are within reach.\<close>

fun reach_indices :: "player \<Rightarrow> nat \<Rightarrow> food list \<Rightarrow> nat list" where
  "reach_indices p i [] = []"
| "reach_indices p i (f # fs) =
     (if within_reach p f then [i] else []) @ reach_indices p (Suc i) fs"

text \<open>
  The states of the player in a run of \<^verbatim>\<open>main\<close>. The player is created once, by
  \<^verbatim>\<open>Player(\<dots>)\<close>; after that \<^verbatim>\<open>main\<close> changes it only through the handler of the key G,
  \<^verbatim>\<open>update_target\<close>, \<^verbatim>\<open>move\<close>, the consumption pass and \<^verbatim>\<open>update_description_timer\<close>,
  and it goes on only when the call has returned. The inputs of the calls (the mouse,
  the camera, the answer of the service, the foods, the random source and the time of
  the frame) are arbitrary. The handler does not look at the exception of a failed
  request, which is the unit here.
\<close>

inductive reachable :: "player \<Rightarrow> bool" where
  created: "reachable (Player_init nm col)"
| requested:
    "reachable p \<Longrightarrow> reachable (fst (request_description p av busy (response :: unit outcome)))"
| targeted: "reachable p \<Longrightarrow> reachable (update_target p mouse_x mouse_y camera_x camera_y)"
| moved: "reachable p \<Longrightarrow> move p = Inr p' \<Longrightarrow> reachable p'"
| passed: "reachable p \<Longrightarrow> resolve_consumption p fs g n = Inr (p', fs', n') \<Longrightarrow> reachable p'"
| ticked: "reachable p \<Longrightarrow> reachable (update_description_timer p dt)"

section \<open>Properties\<close>

lemmas constants =
  SCREEN_WIDTH_def SCREEN_HEIGHT_def WORLD_WIDTH_def WORLD_HEIGHT_def FOOD_COUNT_def
  INITIAL_PLAYER_RADIUS_def PLAYER_SPEED_FACTOR_def MIN_PLAYER_RADIUS_def FOOD_RADIUS_def
  DESCRIPTION_DURATION_def

subsection \<open>Square roots of the numbers in the examples\<close>

lemma sqrt_25: "sqrt 25 = 5"
  by (rule real_sqrt_unique) simp_all

lemma sqrt_100: "sqrt 100 = 10"
  by (rule real_sqrt_unique) simp_all

lemma sqrt_400: "sqrt 400 = 20"
  by (rule real_sqrt_unique) simp_all

lemma sqrt_10000: "sqrt 10000 = 100"
  by (rule real_sqrt_unique) simp_all

subsection \<open>Growth\<close>

lemma sqrt_9: "sqrt 9 = 3"
  by (rule real_sqrt_unique) simp_all

lemma grow_Inr:
  "0 \<le> mass p + d \<Longrightarrow>
   grow p d = Inr (p\<lparr>radius := max (sqrt (mass p + d)) MIN_PLAYER_RADIUS, mass := mass p + d\<rparr>)"
  by (simp add: grow_def math_sqrt_def Let_def)

text \<open>
  When the new mass is negative, \<^verbatim>\<open>math.sqrt\<close> raises after the mass has been assigned:
  the player is left with the new mass and the old radius.
\<close>

lemma grow_Inl: "mass p + d < 0 \<Longrightarrow> grow p d = Inl (ValueError, p\<lparr>mass := mass p + d\<rparr>)"
  by (simp add: grow_def math_sqrt_def Let_def)

lemma grow_returned:
  assumes "grow p d = Inr p'"
  shows "p' = p\<lparr>radius := radius_of_mass (mass p + d), mass := mass p + d\<rparr>"
    and "0 \<le> mass p + d"
  using assms
  by (auto simp: grow_def math_sqrt_def radius_of_mass_def Let_def split: if_splits)

text \<open>
  C6 as it is stated fails: \<^verbatim>\<open>grow\<close> has no guard. With \<open>mass_increase = - 300\<close> the
  initial player, of mass 400 and radius 20, shrinks to mass 100 and radius 10.
\<close>

theorem grow_negative_counterexample:
  "grow (Player_init ''MyCell'' (0, 150, 255)) (- 300) =
     Inr ((Player_init ''MyCell'' (0, 150, 255))\<lparr>radius := 10, mass := 100\<rparr>) \<and>
   mass (Player_init ''MyCell'' (0, 150, 255)) = 400 \<and>
   radius (Player_init ''MyCell'' (0, 150, 255)) = 20"
  by (simp add: grow_def math_sqrt_def Player_init_def constants sqrt_100)

text \<open>
  C6, as the code has it: \<^verbatim>\<open>grow\<close> applies a negative \<open>mass_increase\<close> that leaves the
  mass at zero or above. The call returns, every field but the mass and the radius is as
  it was, the new mass is the sum, which is strictly below the old mass, and the new
  radius is the radius of the new mass, \<open>max (sqrt mass) MIN_PLAYER_RADIUS\<close>: the player
  shrinks, and not below the minimum radius.
\<close>

theorem grow_negative:
  assumes "d < 0" and "0 \<le> mass p + d"
  shows "\<exists>p'. grow p d = Inr p' \<and>
           p' = p\<lparr>radius := radius_of_mass (mass p + d), mass := mass p + d\<rparr> \<and>
           mass p' < mass p \<and>
           radius p' = max (sqrt (mass p')) MIN_PLAYER_RADIUS \<and>
           MIN_PLAYER_RADIUS \<le> radius p'"
  using assms by (simp add: grow_Inr radius_of_mass_def)

theorem grow_negative_witness:
  "(- 391 :: real) < 0 \<and> 0 \<le> mass (Player_init ''MyCell'' (0, 150, 255)) + - 391 \<and>
   grow (Player_init ''MyCell'' (0, 150, 255)) (- 391) =
     Inr ((Player_init ''MyCell'' (0, 150, 255))\<lparr>radius := 5, mass := 9\<rparr>)"
  using grow_negative [of "- 391" "Player_init ''MyCell'' (0, 150, 255)"]
  by (simp add: Player_init_def radius_of_mass_def constants sqrt_9)

subsection \<open>Eating\<close>

lemma eat_result:
  assumes "0 \<le> mass p"
  shows "eat p f =
           (if centre_distance p f < radius p
            then Inr (True, p\<lparr>radius := radius_of_mass (mass p + (radius f)\<^sup>2),
                              mass := mass p + (radius f)\<^sup>2\<rparr>, f)
            else Inr (False, p, f))"
proof -
  have "0 \<le> mass p + (radius f)\<^sup>2" using assms by simp
  then show ?thesis
    by (simp add: eat_def grow_Inr radius_of_mass_def centre_distance_def)
qed

lemma eat_returned:
  assumes "eat p f = Inr (b, p', f')"
  shows "f' = f" and "b \<longleftrightarrow> centre_distance p f < radius p"
    and "p' = (if b then p\<lparr>radius := radius_of_mass (mass p + (radius f)\<^sup>2),
                           mass := mass p + (radius f)\<^sup>2\<rparr> else p)"
    and "b \<Longrightarrow> 0 \<le> mass p + (radius f)\<^sup>2"
  using assms
  by (auto simp: eat_def Let_def centre_distance_def
      dest: grow_returned split: if_splits sum.splits)

text \<open>
  C1: whenever \<^verbatim>\<open>eat\<close> returns, the flag it returns is true if and only if the Euclidean
  distance between the two centres, \<open>sqrt ((x\<^sub>p - x\<^sub>f)\<^sup>2 + (y\<^sub>p - y\<^sub>f)\<^sup>2)\<close>, is strictly less than
  the radius of the player; the radius of the food does not enter. The mass of the
  player grows by the square of the food's radius exactly when the flag is true, and
  stays as it is otherwise. For a player whose mass is not negative \<^verbatim>\<open>eat\<close> does return,
  and it returns the same flag for the food with any other radius \<open>r\<close>.
\<close>

theorem eat_iff_within_radius:
  "(eat p f = Inr (b, p', f') \<longrightarrow>
      (b \<longleftrightarrow> sqrt ((pos_x p - pos_x f)\<^sup>2 + (pos_y p - pos_y f)\<^sup>2) < radius p) \<and>
      mass p' = (if b then mass p + (radius f)\<^sup>2 else mass p)) \<and>
   (0 \<le> mass p \<longrightarrow>
      (\<exists>q. eat p f =
         Inr (sqrt ((pos_x p - pos_x f)\<^sup>2 + (pos_y p - pos_y f)\<^sup>2) < radius p, q, f)) \<and>
      (\<exists>q. eat p (f\<lparr>radius := r\<rparr>) =
         Inr (sqrt ((pos_x p - pos_x f)\<^sup>2 + (pos_y p - pos_y f)\<^sup>2) < radius p, q,
              f\<lparr>radius := r\<rparr>)))"
proof -
  have "(b \<longleftrightarrow> sqrt ((pos_x p - pos_x f)\<^sup>2 + (pos_y p - pos_y f)\<^sup>2) < radius p) \<and>
        mass p' = (if b then mass p + (radius f)\<^sup>2 else mass p)"
    if "eat p f = Inr (b, p', f')"
    using eat_returned(2,3) [OF that] by (simp add: centre_distance_def)
  moreover have "\<exists>q. eat p f =
      Inr (sqrt ((pos_x p - pos_x f)\<^sup>2 + (pos_y p - pos_y f)\<^sup>2) < radius p, q, f)"
    if "0 \<le> mass p"
    using eat_result [OF that, of f] by (simp add: centre_distance_def)
  moreover have "\<exists>q. eat p (f\<lparr>radius := r\<rparr>) =
      Inr (sqrt ((pos_x p - pos_x f)\<^sup>2 + (pos_y p - pos_y f)\<^sup>2) < radius p, q,
           f\<lparr>radius := r\<rparr>)"
    if "0 \<le> mass p"
    using eat_result [OF that, of "f\<lparr>radius := r\<rparr>"] by (simp add: centre_distance_def)
  ultimately show ?thesis by blast
qed

theorem eat_iff_within_radius_witness:
  "0 \<le> mass (Player_init ''MyCell'' (0, 150, 255)) \<and>
   eat (Player_init ''MyCell'' (0, 150, 255))
       \<lparr>pos_x = 3, pos_y = 4, radius = 5, color = (50, 50, 50)\<rparr> =
     Inr (True, (Player_init ''MyCell'' (0, 150, 255))\<lparr>radius := radius_of_mass 425, mass := 425\<rparr>,
          \<lparr>pos_x = 3, pos_y = 4, radius = 5, color = (50, 50, 50)\<rparr>) \<and>
   sqrt ((pos_x (Player_init ''MyCell'' (0, 150, 255)) - 3)\<^sup>2 +
         (pos_y (Player_init ''MyCell'' (0, 150, 255)) - 4)\<^sup>2) = 5 \<and>
   eat (Player_init ''MyCell'' (0, 150, 255))
       \<lparr>pos_x = 12, pos_y = 16, radius = 5, color = (50, 50, 50)\<rparr> =
     Inr (False, Player_init ''MyCell'' (0, 150, 255),
          \<lparr>pos_x = 12, pos_y = 16, radius = 5, color = (50, 50, 50)\<rparr>) \<and>
   sqrt ((pos_x (Player_init ''MyCell'' (0, 150, 255)) - 12)\<^sup>2 +
         (pos_y (Player_init ''MyCell'' (0, 150, 255)) - 16)\<^sup>2) = 20"
proof -
  let ?P = "Player_init ''MyCell'' (0, 150, 255)"
  let ?A = "\<lparr>pos_x = 3, pos_y = 4, radius = 5, color = (50, 50, 50)\<rparr> :: food"
  let ?B = "\<lparr>pos_x = 12, pos_y = 16, radius = 5, color = (50, 50, 50)\<rparr> :: food"
  have m: "0 \<le> mass ?P" by (simp add: Player_init_def constants)
  have a: "eat ?P ?A = Inr (True, ?P\<lparr>radius := radius_of_mass 425, mass := 425\<rparr>, ?A)"
    by (simp add: eat_def grow_def math_sqrt_def radius_of_mass_def Player_init_def
        constants sqrt_25)
  have b: "eat ?P ?B = Inr (False, ?P, ?B)"
    by (simp add: eat_def Player_init_def constants sqrt_400)
  have da: "sqrt ((pos_x ?P - 3)\<^sup>2 + (pos_y ?P - 4)\<^sup>2) = 5"
    by (simp add: Player_init_def sqrt_25)
  have db: "sqrt ((pos_x ?P - 12)\<^sup>2 + (pos_y ?P - 16)\<^sup>2) = 20"
    by (simp add: Player_init_def sqrt_400)
  from eat_iff_within_radius
         [of ?P ?A True "?P\<lparr>radius := radius_of_mass 425, mass := 425\<rparr>" ?A 5]
       eat_iff_within_radius [of ?P ?B False ?P ?B 5] m a b da db
  show ?thesis by simp
qed

text \<open>
  C10: whatever \<^verbatim>\<open>eat\<close> returns, the food is as it was; when it returns false, the player
  is as it was, in every field; and \<^verbatim>\<open>eat\<close> does return false, without an error, when
  the distance between the centres is at least the radius.
\<close>

theorem eat_frame:
  "(eat p f = Inr (b, p', f') \<longrightarrow> f' = f \<and> (\<not> b \<longrightarrow> p' = p)) \<and>
   (radius p \<le> centre_distance p f \<longrightarrow> eat p f = Inr (False, p, f))"
  by (auto simp: eat_def Let_def centre_distance_def split: if_splits sum.splits)

theorem eat_frame_witness:
  "eat (Player_init ''MyCell'' (0, 150, 255))
       \<lparr>pos_x = 100, pos_y = 0, radius = 5, color = (50, 50, 50)\<rparr>
     = Inr (False, Player_init ''MyCell'' (0, 150, 255),
            \<lparr>pos_x = 100, pos_y = 0, radius = 5, color = (50, 50, 50)\<rparr>) \<and>
   radius (Player_init ''MyCell'' (0, 150, 255))
     \<le> centre_distance (Player_init ''MyCell'' (0, 150, 255))
          \<lparr>pos_x = 100, pos_y = 0, radius = 5, color = (50, 50, 50)\<rparr>"
  using eat_frame [of "Player_init ''MyCell'' (0, 150, 255)"
      "\<lparr>pos_x = 100, pos_y = 0, radius = 5, color = (50, 50, 50)\<rparr>"
      False "Player_init ''MyCell'' (0, 150, 255)"
      "\<lparr>pos_x = 100, pos_y = 0, radius = 5, color = (50, 50, 50)\<rparr>"]
  by (simp add: Player_init_def centre_distance_def constants sqrt_10000)

subsection \<open>Movement\<close>

lemma move_far:
  assumes "1 < target_distance p" and "move_speed (radius p) = Inr s"
  shows "move p = Inr (p\<lparr>pos_x := max (- WORLD_WIDTH / 2 + radius p)
                (min (WORLD_WIDTH / 2 - radius p)
                   (pos_x p + (target_x p - pos_x p) / target_distance p * s)),
              pos_y := max (- WORLD_HEIGHT / 2 + radius p)
                (min (WORLD_HEIGHT / 2 - radius p)
                   (pos_y p + (target_y p - pos_y p) / target_distance p * s))\<rparr>)"
  using assms by (simp add: move_def target_distance_def Let_def)

lemma move_near: "target_distance p \<le> 1 \<Longrightarrow> move p = Inr p"
  by (simp add: move_def target_distance_def Let_def)

text \<open>
  C3 as it is stated fails: \<^verbatim>\<open>move\<close> clamps only inside the branch \<open>distance > 1\<close>, and
  \<^verbatim>\<open>grow\<close> enlarges the radius without touching the position. A player that stood at
  the clamped position \<open>x = 980\<close> with radius 20 and has grown to radius 25 stays at
  \<open>x = 980\<close> when its target is its own position, and \<open>980 > 1000 - 25\<close>.
\<close>

theorem move_unclamped_counterexample:
  "move ((Player_init ''MyCell'' (0, 150, 255))
           \<lparr>pos_x := 980, radius := 25, mass := 625, target_x := 980\<rparr>) =
     Inr ((Player_init ''MyCell'' (0, 150, 255))
           \<lparr>pos_x := 980, radius := 25, mass := 625, target_x := 980\<rparr>) \<and>
   \<not> \<bar>pos_x ((Player_init ''MyCell'' (0, 150, 255))
           \<lparr>pos_x := 980, radius := 25, mass := 625, target_x := 980\<rparr>)\<bar>
      \<le> WORLD_WIDTH / 2 - radius ((Player_init ''MyCell'' (0, 150, 255))
           \<lparr>pos_x := 980, radius := 25, mass := 625, target_x := 980\<rparr>)"
  by (simp add: move_def Player_init_def constants)

text \<open>
  C3, as the code has it: for a player whose radius is not zero and at most half the
  width and half the height of the world, \<^verbatim>\<open>move\<close> returns. When the distance to the
  target exceeds 1, the new position has the whole disc inside the world, for any
  target; when the distance is at most 1, the player is left as it was.
\<close>

theorem move_clamped:
  assumes "radius p \<noteq> 0" and "radius p \<le> WORLD_WIDTH / 2" and "radius p \<le> WORLD_HEIGHT / 2"
  shows "\<exists>p'. move p = Inr p' \<and>
           (if 1 < target_distance p then inside_world p' else p' = p)"
proof (cases "1 < target_distance p")
  case True
  from assms(1) obtain s where s: "move_speed (radius p) = Inr s"
    by (simp add: move_speed_def)
  show ?thesis
    using True assms(2,3)
    by (auto simp: move_far [OF True s] inside_world_def abs_le_iff max_def min_def)
next
  case False
  then show ?thesis by (simp add: move_near)
qed

theorem move_clamped_witness:
  "radius ((Player_init ''MyCell'' (0, 150, 255))\<lparr>pos_x := 980, target_x := 1080\<rparr>) \<noteq> 0 \<and>
   radius ((Player_init ''MyCell'' (0, 150, 255))\<lparr>pos_x := 980, target_x := 1080\<rparr>)
     \<le> WORLD_WIDTH / 2 \<and>
   radius ((Player_init ''MyCell'' (0, 150, 255))\<lparr>pos_x := 980, target_x := 1080\<rparr>)
     \<le> WORLD_HEIGHT / 2 \<and>
   1 < target_distance
         ((Player_init ''MyCell'' (0, 150, 255))\<lparr>pos_x := 980, target_x := 1080\<rparr>) \<and>
   (\<exists>p'. move ((Player_init ''MyCell'' (0, 150, 255))\<lparr>pos_x := 980, target_x := 1080\<rparr>)
            = Inr p' \<and> inside_world p')"
  using move_clamped
    [of "(Player_init ''MyCell'' (0, 150, 255))\<lparr>pos_x := 980, target_x := 1080\<rparr>"]
  by (simp add: Player_init_def target_distance_def constants sqrt_10000)

text \<open>
  C7: the speed of a step is \<open>max (PLAYER_SPEED_FACTOR * (INITIAL_PLAYER_RADIUS / radius)) 0.1\<close>,
  and the floor \<open>0.1\<close> is the value of the first argument at the initial radius. The
  player at its initial radius 20 and the player that has grown to radius 40, mass 1600,
  with the same target 100 away, make the same step of \<open>0.1\<close>: the larger one is not
  slower.
\<close>

theorem move_speed_at_floor:
  "move_speed 20 = Inr (1 / 10) \<and> move_speed 40 = Inr (1 / 10) \<and>
   move ((Player_init ''MyCell'' (0, 150, 255))\<lparr>target_x := 100\<rparr>) =
     Inr ((Player_init ''MyCell'' (0, 150, 255))\<lparr>target_x := 100, pos_x := 1 / 10\<rparr>) \<and>
   move ((Player_init ''MyCell'' (0, 150, 255))\<lparr>target_x := 100, radius := 40, mass := 1600\<rparr>) =
     Inr ((Player_init ''MyCell'' (0, 150, 255))
            \<lparr>target_x := 100, radius := 40, mass := 1600, pos_x := 1 / 10\<rparr>)"
  by (simp add: move_speed_def move_def Player_init_def constants sqrt_10000 Let_def)

subsection \<open>The request of a description\<close>

text \<open>
  \<^verbatim>\<open>main\<close> calls \<^verbatim>\<open>update_description_timer\<close> once in every frame, with the time of the
  frame, which is not negative. Once the timer has run out, the calls change nothing.
\<close>

lemma ticks_stopped:
  "description_timer p \<le> 0 \<Longrightarrow> foldl update_description_timer p dts = p"
  by (induction dts) (simp_all add: update_description_timer_def)

lemma ticks_elapsed:
  assumes "\<forall>dt\<in>set dts. 0 \<le> dt" and "0 < description_timer p"
  shows "gemini_description (foldl update_description_timer p dts) =
           (if description_timer p \<le> sum_list dts then [] else gemini_description p) \<and>
         (sum_list dts < description_timer p \<longrightarrow>
            foldl update_description_timer p dts =
              p\<lparr>description_timer := description_timer p - sum_list dts\<rparr>)"
  using assms
proof (induction dts arbitrary: p)
  case Nil
  then show ?case by simp
next
  case (Cons dt dts)
  have rest: "0 \<le> sum_list dts"
    by (rule sum_list_nonneg) (use Cons.prems(1) in simp)
  show ?case
  proof (cases "description_timer p - dt \<le> 0")
    case True
    let ?p1 = "p\<lparr>description_timer := description_timer p - dt, gemini_description := []\<rparr>"
    have u: "update_description_timer p dt = ?p1"
      using True Cons.prems(2) by (simp add: update_description_timer_def Let_def)
    have "foldl update_description_timer ?p1 dts = ?p1"
      by (rule ticks_stopped) (use True in simp)
    then show ?thesis using u True rest by simp
  next
    case False
    let ?p1 = "p\<lparr>description_timer := description_timer p - dt\<rparr>"
    have u: "update_description_timer p dt = ?p1"
      using False Cons.prems(2) by (simp add: update_description_timer_def Let_def)
    have "gemini_description (foldl update_description_timer ?p1 dts) =
            (if description_timer ?p1 \<le> sum_list dts then [] else gemini_description ?p1) \<and>
          (sum_list dts < description_timer ?p1 \<longrightarrow>
             foldl update_description_timer ?p1 dts =
               ?p1\<lparr>description_timer := description_timer ?p1 - sum_list dts\<rparr>)"
      by (rule Cons.IH) (use Cons.prems(1) False in simp_all)
    then show ?thesis using u by (auto simp: algebra_simps)
  qed
qed

text \<open>
  C9 as it is stated fails: with the service available and no request in progress, a
  failed call sets the timer to 2 and a successful one to \<^verbatim>\<open>DESCRIPTION_DURATION\<close>, 5.
\<close>

theorem request_failure_counterexample:
  "description_timer (fst (request_description (Player_init ''MyCell'' (0, 150, 255)) True False
      (Raised ()))) = 2 \<and>
   description_timer (fst (request_description (Player_init ''MyCell'' (0, 150, 255)) True False
      (Text (ascii ''A blue blob'')))) = 5"
  by (simp add: request_description_def constants)

text \<open>
  C9, as the code has it: when the service is available and no request is in progress,
  a failed call is handled in place: the text becomes \<^verbatim>\<open>Gemini error :(\<close>, the timer
  becomes 2 and the flag of the request in progress is cleared. A successful call sets
  the cleaned text and the timer 5. In both cases the calls of
  \<^verbatim>\<open>update_description_timer\<close> in the frames that follow, with frame times that are not
  negative, count the timer down in the same way: as long as the elapsed time is below
  the duration that was set, the text stands and the timer holds the duration less the
  elapsed time; from the frame on where the elapsed time reaches the duration, the text
  is empty.
\<close>

theorem request_failure:
  assumes "av" and "\<not> busy" and "\<forall>dt\<in>set dts. 0 \<le> dt"
  shows "request_description p av busy (Raised e) =
           (p\<lparr>gemini_description := ascii ''Gemini error :('', description_timer := 2\<rparr>, False) \<and>
         request_description p av busy (Text t) =
           (p\<lparr>gemini_description := remove_quotes (strip t),
              description_timer := DESCRIPTION_DURATION\<rparr>, False) \<and>
         DESCRIPTION_DURATION = 5 \<and>
         gemini_description (foldl update_description_timer
             (fst (request_description p av busy (Raised e))) dts) =
           (if 2 \<le> sum_list dts then [] else ascii ''Gemini error :('') \<and>
         (sum_list dts < 2 \<longrightarrow>
            description_timer (foldl update_description_timer
                (fst (request_description p av busy (Raised e))) dts) = 2 - sum_list dts) \<and>
         gemini_description (foldl update_description_timer
             (fst (request_description p av busy (Text t))) dts) =
           (if DESCRIPTION_DURATION \<le> sum_list dts then [] else remove_quotes (strip t)) \<and>
         (sum_list dts < DESCRIPTION_DURATION \<longrightarrow>
            description_timer (foldl update_description_timer
                (fst (request_description p av busy (Text t))) dts) =
              DESCRIPTION_DURATION - sum_list dts)"
proof -
  let ?pe = "p\<lparr>gemini_description := ascii ''Gemini error :('', description_timer := 2\<rparr>"
  let ?pt = "p\<lparr>gemini_description := remove_quotes (strip t),
               description_timer := DESCRIPTION_DURATION\<rparr>"
  have re: "request_description p av busy (Raised e) = (?pe, False)"
    using assms(1,2) by (simp add: request_description_def)
  have rt: "request_description p av busy (Text t) = (?pt, False)"
    using assms(1,2) by (simp add: request_description_def)
  have d: "DESCRIPTION_DURATION = 5" by (simp add: constants)
  have te: "0 < description_timer ?pe" by simp
  have tt: "0 < description_timer ?pt" by (simp add: d)
  have e1: "gemini_description (foldl update_description_timer ?pe dts) =
              (if 2 \<le> sum_list dts then [] else ascii ''Gemini error :('')"
    using ticks_elapsed [OF assms(3) te] by simp
  have e2: "description_timer (foldl update_description_timer ?pe dts) = 2 - sum_list dts"
    if "sum_list dts < 2"
    using ticks_elapsed [OF assms(3) te] that by simp
  have t1: "gemini_description (foldl update_description_timer ?pt dts) =
              (if DESCRIPTION_DURATION \<le> sum_list dts then [] else remove_quotes (strip t))"
    using ticks_elapsed [OF assms(3) tt] by simp
  have t2: "description_timer (foldl update_description_timer ?pt dts) =
              DESCRIPTION_DURATION - sum_list dts"
    if "sum_list dts < DESCRIPTION_DURATION"
    using ticks_elapsed [OF assms(3) tt] that by simp
  show ?thesis
    unfolding re rt fst_conv using e1 e2 t1 t2 d by blast
qed

theorem request_failure_witness:
  "True \<and> \<not> False \<and> (0::real) \<le> 3 / 2 \<and>
   request_description (Player_init ''MyCell'' (0, 150, 255)) True False (Raised ()) =
     ((Player_init ''MyCell'' (0, 150, 255))
        \<lparr>gemini_description := ascii ''Gemini error :('', description_timer := 2\<rparr>, False) \<and>
   gemini_description (foldl update_description_timer
       (fst (request_description (Player_init ''MyCell'' (0, 150, 255)) True False (Raised ())))
       [3 / 2]) = ascii ''Gemini error :('' \<and>
   description_timer (foldl update_description_timer
       (fst (request_description (Player_init ''MyCell'' (0, 150, 255)) True False (Raised ())))
       [3 / 2]) = 1 / 2 \<and>
   gemini_description (foldl update_description_timer
       (fst (request_description (Player_init ''MyCell'' (0, 150, 255)) True False (Raised ())))
       [3 / 2, 3 / 2]) = []"
  using request_failure [where av = True and busy = False and dts = "[3 / 2]"
      and p = "Player_init ''MyCell'' (0, 150, 255)" and e = "()" and t = "[]"]
    request_failure [where av = True and busy = False and dts = "[3 / 2, 3 / 2]"
      and p = "Player_init ''MyCell'' (0, 150, 255)" and e = "()" and t = "[]"]
  by (auto simp: field_simps)

subsection \<open>The consumption pass\<close>

lemma eat_loop_foods:
  "eat_loop p i fs acc = Inr (p', fs', eaten) \<Longrightarrow> fs' = fs"
proof (induction fs arbitrary: p i acc p' fs' eaten)
  case Nil
  then show ?case by simp
next
  case (Cons f fs)
  from Cons.prems obtain b p1 f1 p2 fs2 e2
    where e: "eat p f = Inr (b, p1, f1)"
      and l: "eat_loop p1 (Suc i) fs (if b then acc @ [i] else acc) = Inr (p2, fs2, e2)"
      and r: "fs' = f1 # fs2"
    by (auto split: sum.splits prod.splits)
  from e have "f1 = f" by (auto simp: eat_def Let_def split: if_splits sum.splits)
  moreover from Cons.IH [OF l] have "fs2 = fs" .
  ultimately show ?case using r by simp
qed

lemma eat_loop_returns:
  assumes "0 \<le> mass p"
  shows "\<exists>p' js. eat_loop p i fs acc = Inr (p', fs, acc @ js) \<and>
           sorted js \<and> distinct js \<and> set js \<subseteq> {i..<i + length fs} \<and> mass p \<le> mass p'"
  using assms
proof (induction fs arbitrary: p i acc)
  case Nil
  then show ?case by simp
next
  case (Cons f fs)
  show ?case
  proof (cases "centre_distance p f < radius p")
    case True
    let ?p1 = "p\<lparr>radius := radius_of_mass (mass p + (radius f)\<^sup>2),
                  mass := mass p + (radius f)\<^sup>2\<rparr>"
    have e: "eat p f = Inr (True, ?p1, f)"
      using True by (simp add: eat_result [OF Cons.prems])
    have m1: "0 \<le> mass ?p1" using Cons.prems by simp
    from Cons.IH [OF m1, of "Suc i" "acc @ [i]"] obtain p' js
      where l: "eat_loop ?p1 (Suc i) fs (acc @ [i]) = Inr (p', fs, (acc @ [i]) @ js)"
        and s: "sorted js" and d: "distinct js"
        and sub: "set js \<subseteq> {Suc i..<Suc i + length fs}" and m: "mass ?p1 \<le> mass p'"
      by blast
    have "eat_loop p i (f # fs) acc = Inr (p', f # fs, acc @ (i # js))"
      using e l by simp
    moreover have "sorted (i # js)" using s sub by auto
    moreover have "distinct (i # js)" using d sub by auto
    moreover have "set (i # js) \<subseteq> {i..<i + length (f # fs)}" using sub by auto
    moreover have "mass p \<le> mass p'"
    proof -
      have "0 \<le> (radius f)\<^sup>2" by simp
      moreover have "mass p + (radius f)\<^sup>2 \<le> mass p'" using m by simp
      ultimately show ?thesis by linarith
    qed
    ultimately show ?thesis by blast
  next
    case False
    have e: "eat p f = Inr (False, p, f)"
      using False by (simp add: eat_result [OF Cons.prems])
    from Cons.IH [OF Cons.prems, of "Suc i" acc] obtain p' js
      where l: "eat_loop p (Suc i) fs acc = Inr (p', fs, acc @ js)"
        and s: "sorted js" and d: "distinct js"
        and sub: "set js \<subseteq> {Suc i..<Suc i + length fs}" and m: "mass p \<le> mass p'"
      by blast
    have "eat_loop p i (f # fs) acc = Inr (p', f # fs, acc @ js)"
      using e l by simp
    moreover have "set js \<subseteq> {i..<i + length (f # fs)}" using sub by auto
    ultimately show ?thesis using s d m by blast
  qed
qed

lemma nths_cong_below:
  "(\<And>j. j < length xs \<Longrightarrow> (j \<in> A \<longleftrightarrow> j \<in> B)) \<Longrightarrow> nths xs A = nths xs B"
  unfolding nths_def
  by (rule arg_cong [where f = "map fst"], rule filter_cong) (auto simp: set_zip)

lemma nths_remove_index:
  assumes "i < length xs" and "\<forall>j\<in>S. j < i"
  shows "nths xs (- insert i S) = nths (take i xs) (- S) @ drop (Suc i) xs"
proof -
  have xs: "xs = take i xs @ xs ! i # drop (Suc i) xs"
    using assms(1) by (simp add: id_take_nth_drop)
  have len: "length (take i xs) = i" using assms(1) by simp
  have "nths xs (- insert i S) =
          nths (take i xs) (- insert i S) @
          nths (xs ! i # drop (Suc i) xs) {j. j + i \<in> - insert i S}"
    by (subst xs, subst nths_append) (simp only: len)
  also have "nths (take i xs) (- insert i S) = nths (take i xs) (- S)"
    by (rule nths_cong_below) (use len in auto)
  also have "nths (xs ! i # drop (Suc i) xs) {j. j + i \<in> - insert i S} = drop (Suc i) xs"
  proof -
    have "nths (drop (Suc i) xs) {j. Suc j + i \<in> - insert i S} = drop (Suc i) xs"
      by (rule nths_all) (use assms(2) in auto)
    then show ?thesis by (simp add: nths_Cons)
  qed
  finally show ?thesis .
qed

lemma replace_loop_descending:
  assumes "sorted (rev is)" and "distinct is" and "\<forall>i\<in>set is. i < length pre"
  shows "replace_loop (pre @ post) is g n =
           Inr (nths pre (- set is) @ post @ map (\<lambda>k. Food_init (g k)) [n..<n + length is],
                n + length is)"
  using assms
proof (induction "is" arbitrary: pre post n)
  case Nil
  have "nths pre UNIV = pre" by (rule nths_all) simp
  then show ?case by simp
next
  case (Cons i "is")
  have i: "i < length pre" using Cons.prems(3) by simp
  have below: "\<forall>j\<in>set is. j < i"
  proof
    fix j assume j: "j \<in> set is"
    then have "j \<le> i" using Cons.prems(1) by (simp add: sorted_append)
    moreover have "j \<noteq> i" using j Cons.prems(2) by auto
    ultimately show "j < i" by simp
  qed
  have pop: "pop (pre @ post) i = Inr (take i pre @ drop (Suc i) pre @ post)"
    using i by (simp add: pop_def)
  have "replace_loop (pre @ post) (i # is) g n =
          replace_loop (take i pre @ (drop (Suc i) pre @ post @ [Food_init (g n)])) is g (Suc n)"
    by (simp add: pop)
  also have "\<dots> = Inr (nths (take i pre) (- set is) @ (drop (Suc i) pre @ post @ [Food_init (g n)]) @
                       map (\<lambda>k. Food_init (g k)) [Suc n..<Suc n + length is],
                     Suc n + length is)"
  proof (rule Cons.IH)
    show "sorted (rev is)" using Cons.prems(1) by (simp add: sorted_append)
    show "distinct is" using Cons.prems(2) by simp
    show "\<forall>j\<in>set is. j < length (take i pre)" using below i by simp
  qed
  also have "nths (take i pre) (- set is) @ (drop (Suc i) pre @ post @ [Food_init (g n)]) @
               map (\<lambda>k. Food_init (g k)) [Suc n..<Suc n + length is]
             = nths pre (- set (i # is)) @ post @
               map (\<lambda>k. Food_init (g k)) [n..<n + length (i # is)]"
  proof -
    have "[n..<Suc (n + length is)] = n # [Suc n..<Suc (n + length is)]"
      by (rule upt_conv_Cons) simp
    then show ?thesis
      using nths_remove_index [OF i below] by simp
  qed
  finally show ?case by simp
qed

lemma resolve_consumption_result:
  assumes "0 \<le> mass p"
  shows "\<exists>p' eaten. eat_loop p 0 fs [] = Inr (p', fs, eaten) \<and>
           sorted eaten \<and> distinct eaten \<and> set eaten \<subseteq> {..<length fs} \<and>
           resolve_consumption p fs g n =
             Inr (p', nths fs (- set eaten) @ map (\<lambda>k. Food_init (g k)) [n..<n + length eaten],
                  n + length eaten)"
proof -
  from eat_loop_returns [OF assms, of 0 fs "[]"] obtain p' js
    where l: "eat_loop p 0 fs [] = Inr (p', fs, js)"
      and s: "sorted js" and d: "distinct js" and sub0: "set js \<subseteq> {0..<0 + length fs}"
    by auto
  from sub0 have sub: "set js \<subseteq> {..<length fs}" by auto
  have "replace_loop (fs @ []) (rev js) g n =
          Inr (nths fs (- set (rev js)) @ [] @
                 map (\<lambda>k. Food_init (g k)) [n..<n + length (rev js)],
               n + length (rev js))"
    by (rule replace_loop_descending) (use s d sub in auto)
  then have "replace_loop fs (rev (sort js)) g n =
          Inr (nths fs (- set js) @ map (\<lambda>k. Food_init (g k)) [n..<n + length js],
               n + length js)"
    using s by (simp add: sorted_sort_id)
  then have "resolve_consumption p fs g n =
          Inr (p', nths fs (- set js) @ map (\<lambda>k. Food_init (g k)) [n..<n + length js],
               n + length js)"
    using l by (simp add: resolve_consumption_def)
  with l s d sub show ?thesis by blast
qed

lemma length_survivors:
  assumes "distinct eaten" and "set eaten \<subseteq> {..<length fs}"
  shows "length (nths fs (- set eaten)) + length eaten = length fs"
proof -
  have "{i. i < length fs \<and> i \<in> - set eaten} = {..<length fs} - set eaten" by auto
  then have "length (nths fs (- set eaten)) = card ({..<length fs} - set eaten)"
    by (simp add: length_nths)
  also have "\<dots> = length fs - card (set eaten)"
    using assms(2) by (simp add: card_Diff_subset)
  also have "card (set eaten) = length eaten"
    using assms(1) by (simp add: distinct_card)
  finally have "length (nths fs (- set eaten)) = length fs - length eaten" .
  moreover have "length eaten \<le> length fs"
    using assms card_mono [of "{..<length fs}" "set eaten"] by (simp add: distinct_card)
  ultimately show ?thesis by simp
qed

text \<open>
  C2: for a player whose mass is not negative, the consumption pass returns, and the
  food list it leaves has the length of the list it was given. The list it leaves is
  the foods that were not eaten, in their order, followed by one new food for every
  eaten one, each made from the next sample of the random source.
\<close>

theorem resolve_consumption_count:
  assumes "0 \<le> mass p"
  shows "\<exists>p' fs' eaten. eat_loop p 0 fs [] = Inr (p', fs, eaten) \<and>
           resolve_consumption p fs g n = Inr (p', fs', n + length eaten) \<and>
           fs' = nths fs (- set eaten) @ map (\<lambda>k. Food_init (g k)) [n..<n + length eaten] \<and>
           length fs' = length fs"
proof -
  from resolve_consumption_result [OF assms, of fs g n] obtain p' eaten
    where l: "eat_loop p 0 fs [] = Inr (p', fs, eaten)"
      and d: "distinct eaten" and sub: "set eaten \<subseteq> {..<length fs}"
      and r: "resolve_consumption p fs g n =
             Inr (p', nths fs (- set eaten) @ map (\<lambda>k. Food_init (g k)) [n..<n + length eaten],
                  n + length eaten)"
    by blast
  have "length (nths fs (- set eaten) @ map (\<lambda>k. Food_init (g k)) [n..<n + length eaten])
          = length fs"
    using length_survivors [OF d sub] by simp
  with l r show ?thesis by blast
qed

theorem resolve_consumption_count_witness:
  "0 \<le> mass (Player_init ''MyCell'' (0, 150, 255)) \<and>
   (\<exists>p' fs' n'.
      resolve_consumption (Player_init ''MyCell'' (0, 150, 255))
        [\<lparr>pos_x = 5, pos_y = 0, radius = 5, color = (50, 50, 50)\<rparr>,
         \<lparr>pos_x = 100, pos_y = 0, radius = 5, color = (50, 50, 50)\<rparr>]
        (\<lambda>k. \<lparr>u_x = 1 / 2, u_y = 1 / 4, c_r = 50, c_g = 60, c_b = 70\<rparr>) 0 = Inr (p', fs', n') \<and>
      length fs' = 2)"
  using resolve_consumption_count [of "Player_init ''MyCell'' (0, 150, 255)"
      "[\<lparr>pos_x = 5, pos_y = 0, radius = 5, color = (50, 50, 50)\<rparr>,
        \<lparr>pos_x = 100, pos_y = 0, radius = 5, color = (50, 50, 50)\<rparr>]"
      "\<lambda>k. \<lparr>u_x = 1 / 2, u_y = 1 / 4, c_r = 50, c_g = 60, c_b = 70\<rparr>" 0]
  by (auto simp: Player_init_def constants)

subsection \<open>New food\<close>

lemma uniform_bounds:
  assumes "0 \<le> u" and "u < 1" and "0 \<le> h"
  shows "\<bar>uniform (- h) h u\<bar> \<le> h"
proof -
  have "uniform (- h) h u = h * (2 * u - 1)" by (simp add: uniform_def algebra_simps)
  moreover have "\<bar>2 * u - 1\<bar> \<le> 1" using assms(1,2) by (simp add: abs_le_iff)
  ultimately show ?thesis using assms(3)
    by (simp add: abs_mult mult_left_le)
qed

lemma Food_init_centre:
  "sample_ok s \<Longrightarrow> centre_in_world (Food_init s) \<and> radius (Food_init s) = FOOD_RADIUS"
  by (simp add: sample_ok_def centre_in_world_def Food_init_def uniform_bounds constants)

lemma spawn_loop_result:
  "spawn_loop k acc g n = (acc @ map (\<lambda>j. Food_init (g j)) [n..<n + k], n + k)"
proof (induction k arbitrary: acc n)
  case 0
  then show ?case by simp
next
  case (Suc k)
  have "[n..<Suc (n + k)] = n # [Suc n..<Suc (n + k)]"
    by (rule upt_conv_Cons) simp
  then show ?case by (simp add: Suc.IH)
qed

lemma spawn_food_result:
  "spawn_food c g n = (map (\<lambda>j. Food_init (g j)) [n..<n + c], n + c)"
  by (simp add: spawn_food_def spawn_loop_result)

lemma replace_loop_length:
  "replace_loop fs is g n = Inr (fs', n') \<Longrightarrow> length fs' = length fs \<and> n' = n + length is"
proof (induction "is" arbitrary: fs n)
  case Nil
  then show ?case by simp
next
  case (Cons i "is")
  from Cons.prems obtain fs1 where p: "pop fs i = Inr fs1"
    and r: "replace_loop (fs1 @ [Food_init (g n)]) is g (Suc n) = Inr (fs', n')"
    by (auto split: sum.splits)
  from p have "i < length fs" and "fs1 = take i fs @ drop (Suc i) fs"
    by (auto simp: pop_def split: if_splits)
  then have "length (fs1 @ [Food_init (g n)]) = length fs" by simp
  with Cons.IH [OF r] show ?case by simp
qed

lemma replace_loop_set:
  "replace_loop fs is g n = Inr (fs', n') \<Longrightarrow>
   set fs' \<subseteq> set fs \<union> (\<lambda>k. Food_init (g k)) ` {n..<n'}"
proof (induction "is" arbitrary: fs n)
  case Nil
  then show ?case by auto
next
  case (Cons i "is")
  from Cons.prems obtain fs1 where p: "pop fs i = Inr fs1"
    and r: "replace_loop (fs1 @ [Food_init (g n)]) is g (Suc n) = Inr (fs', n')"
    by (auto split: sum.splits)
  from p have fs1: "fs1 = take i fs @ drop (Suc i) fs"
    by (auto simp: pop_def split: if_splits)
  have sub1: "set fs1 \<subseteq> set fs"
    unfolding fs1 using set_take_subset [of i fs] set_drop_subset [of "Suc i" fs] by auto
  from replace_loop_length [OF r] have n': "n' = Suc n + length is" by simp
  from Cons.IH [OF r]
  have "set fs' \<subseteq> set (fs1 @ [Food_init (g n)]) \<union> (\<lambda>k. Food_init (g k)) ` {Suc n..<n'}" .
  moreover have "n \<in> {n..<n'}" using n' by simp
  moreover have "{Suc n..<n'} \<subseteq> {n..<n'}" by auto
  ultimately show ?case using sub1 by auto
qed

lemma resolve_consumption_set:
  assumes "resolve_consumption p fs g n = Inr (p', fs', n')"
  shows "set fs' \<subseteq> set fs \<union> (\<lambda>k. Food_init (g k)) ` {n..<n'}"
proof -
  from assms obtain p1 fs1 eaten
    where l: "eat_loop p 0 fs [] = Inr (p1, fs1, eaten)"
      and r: "replace_loop fs1 (rev (sort eaten)) g n = Inr (fs', n')"
    by (auto simp: resolve_consumption_def split: sum.splits prod.splits)
  from eat_loop_foods [OF l] have "fs1 = fs" .
  with replace_loop_set [OF r] show ?thesis by simp
qed

text \<open>
  C8 as it is stated fails: \<^verbatim>\<open>Food.__init__\<close> draws the centre from the whole world and
  does not clamp it. With the sample \<open>0\<close> of \<^verbatim>\<open>random()\<close> the food lies at \<open>x = - 1000\<close>,
  on the border, and its radius 5 reaches out of the world.
\<close>

theorem Food_init_counterexample:
  "sample_ok \<lparr>u_x = 0, u_y = 1 / 2, c_r = 50, c_g = 50, c_b = 50\<rparr> \<and>
   pos_x (Food_init \<lparr>u_x = 0, u_y = 1 / 2, c_r = 50, c_g = 50, c_b = 50\<rparr>) = - 1000 \<and>
   radius (Food_init \<lparr>u_x = 0, u_y = 1 / 2, c_r = 50, c_g = 50, c_b = 50\<rparr>) = 5 \<and>
   \<not> inside_world (Food_init \<lparr>u_x = 0, u_y = 1 / 2, c_r = 50, c_g = 50, c_b = 50\<rparr>)"
  by (simp add: sample_ok_def inside_world_def Food_init_def uniform_def constants)

text \<open>
  C8, as the code has it: when the random source yields samples in their ranges, every
  new food has its centre inside the world, \<open>\<bar>x\<bar> \<le> WORLD_WIDTH / 2\<close> and
  \<open>\<bar>y\<bar> \<le> WORLD_HEIGHT / 2\<close>, and the radius \<^verbatim>\<open>FOOD_RADIUS\<close>. This holds for the foods of
  \<^verbatim>\<open>spawn_food\<close> and for every food of the list after a consumption pass that was not in
  the list before the pass.
\<close>

theorem new_food_centre_in_world:
  assumes "\<forall>k. sample_ok (g k)"
  shows "(\<forall>f \<in> set (fst (spawn_food c g n)). centre_in_world f \<and> radius f = FOOD_RADIUS) \<and>
         (resolve_consumption p fs g n = Inr (p', fs', n') \<longrightarrow>
            (\<forall>f \<in> set fs'. f \<in> set fs \<or> (centre_in_world f \<and> radius f = FOOD_RADIUS)))"
proof -
  have created: "centre_in_world (Food_init (g k)) \<and> radius (Food_init (g k)) = FOOD_RADIUS"
    for k
    using assms Food_init_centre [of "g k"] by simp
  have spawned: "\<forall>f \<in> set (fst (spawn_food c g n)). centre_in_world f \<and> radius f = FOOD_RADIUS"
    using created by (auto simp: spawn_food_result)
  have replaced: "\<forall>f \<in> set fs'. f \<in> set fs \<or> (centre_in_world f \<and> radius f = FOOD_RADIUS)"
    if r: "resolve_consumption p fs g n = Inr (p', fs', n')"
  proof
    fix f assume "f \<in> set fs'"
    with resolve_consumption_set [OF r]
    have "f \<in> set fs \<or> (\<exists>k. f = Food_init (g k))" by auto
    then show "f \<in> set fs \<or> (centre_in_world f \<and> radius f = FOOD_RADIUS)"
      using created by auto
  qed
  from spawned replaced show ?thesis by blast
qed

theorem new_food_centre_in_world_witness:
  "(\<forall>k. sample_ok ((\<lambda>k. \<lparr>u_x = 1 / 2, u_y = 1 / 4, c_r = 50, c_g = 60, c_b = 70\<rparr>) k)) \<and>
   resolve_consumption (Player_init ''MyCell'' (0, 150, 255))
     [\<lparr>pos_x = 5, pos_y = 0, radius = 5, color = (50, 50, 50)\<rparr>]
     (\<lambda>k. \<lparr>u_x = 1 / 2, u_y = 1 / 4, c_r = 50, c_g = 60, c_b = 70\<rparr>) 0 =
     Inr ((Player_init ''MyCell'' (0, 150, 255))\<lparr>radius := radius_of_mass 425, mass := 425\<rparr>,
          [Food_init \<lparr>u_x = 1 / 2, u_y = 1 / 4, c_r = 50, c_g = 60, c_b = 70\<rparr>], 1) \<and>
   fst (spawn_food 2 (\<lambda>k. \<lparr>u_x = 1 / 2, u_y = 1 / 4, c_r = 50, c_g = 60, c_b = 70\<rparr>) 0) =
     [Food_init \<lparr>u_x = 1 / 2, u_y = 1 / 4, c_r = 50, c_g = 60, c_b = 70\<rparr>,
      Food_init \<lparr>u_x = 1 / 2, u_y = 1 / 4, c_r = 50, c_g = 60, c_b = 70\<rparr>] \<and>
   centre_in_world (Food_init \<lparr>u_x = 1 / 2, u_y = 1 / 4, c_r = 50, c_g = 60, c_b = 70\<rparr>) \<and>
   radius (Food_init \<lparr>u_x = 1 / 2, u_y = 1 / 4, c_r = 50, c_g = 60, c_b = 70\<rparr>) = FOOD_RADIUS"
proof -
  let ?g = "\<lambda>k::nat. \<lparr>u_x = 1 / 2, u_y = 1 / 4, c_r = 50, c_g = 60, c_b = 70\<rparr>"
  let ?P = "Player_init ''MyCell'' (0, 150, 255)"
  let ?A = "\<lparr>pos_x = 5, pos_y = 0, radius = 5, color = (50, 50, 50)\<rparr>"
  have ok: "\<forall>k. sample_ok (?g k)" by (simp add: sample_ok_def)
  have e: "eat ?P ?A = Inr (True, ?P\<lparr>radius := radius_of_mass 425, mass := 425\<rparr>, ?A)"
    by (simp add: eat_def grow_def math_sqrt_def centre_distance_def radius_of_mass_def
        Player_init_def constants sqrt_25)
  have r: "resolve_consumption ?P [?A] ?g 0 =
             Inr (?P\<lparr>radius := radius_of_mass 425, mass := 425\<rparr>, [Food_init (?g 0)], 1)"
    by (simp add: resolve_consumption_def e pop_def)
  have ne: "Food_init (?g 0) \<noteq> ?A"
    by (simp add: Food_init_def uniform_def constants)
  have sp: "fst (spawn_food 2 ?g 0) = [Food_init (?g 0), Food_init (?g 0)]"
    by (simp add: spawn_food_def numeral_2_eq_2)
  from new_food_centre_in_world [OF ok, of 2 0 ?P "[?A]"
      "?P\<lparr>radius := radius_of_mass 425, mass := 425\<rparr>" "[Food_init (?g 0)]" 1] r ne ok sp
  show ?thesis by simp
qed

subsection \<open>The order of the foods in the consumption pass\<close>

lemma reach_gain_nonneg: "0 \<le> reach_gain p fs"
  unfolding reach_gain_def by (rule sum_list_nonneg) auto

lemma reach_gain_Cons:
  "reach_gain p (f # fs) = (if within_reach p f then (radius f)\<^sup>2 else 0) + reach_gain p fs"
  by (simp add: reach_gain_def)

lemma radius_of_mass_mono: "a \<le> b \<Longrightarrow> radius_of_mass a \<le> radius_of_mass b"
  by (auto simp: radius_of_mass_def max_def dest: real_sqrt_le_mono)

lemma eat_loop_separated:
  assumes "pos_x q = pos_x p" and "pos_y q = pos_y p"
    and "0 \<le> mass q" and "radius q = radius_of_mass (mass q)"
    and "radius p \<le> radius q"
    and "radius_of_mass (mass q + reach_gain p fs) \<le> R"
    and "\<forall>f\<in>set fs. within_reach p f \<or> R \<le> centre_distance p f"
  shows "eat_loop q i fs acc =
           Inr (q\<lparr>radius := radius_of_mass (mass q + reach_gain p fs),
                  mass := mass q + reach_gain p fs\<rparr>, fs,
                acc @ reach_indices p i fs)"
  using assms
proof (induction fs arbitrary: q i acc)
  case Nil
  then show ?case by (simp add: reach_gain_def)
next
  case (Cons f fs)
  have dist: "centre_distance q f = centre_distance p f"
    using Cons.prems(1,2) by (simp add: centre_distance_def)
  show ?case
  proof (cases "within_reach p f")
    case True
    let ?q1 = "q\<lparr>radius := radius_of_mass (mass q + (radius f)\<^sup>2),
                  mass := mass q + (radius f)\<^sup>2\<rparr>"
    have "centre_distance q f < radius q"
      using True Cons.prems(5) dist by (simp add: within_reach_def)
    then have e: "eat q f = Inr (True, ?q1, f)"
      by (simp add: eat_result [OF Cons.prems(3)])
    have gain: "reach_gain p (f # fs) = (radius f)\<^sup>2 + reach_gain p fs"
      using True by (simp add: reach_gain_Cons)
    have "radius q \<le> radius ?q1"
      using Cons.prems(4) radius_of_mass_mono [of "mass q" "mass q + (radius f)\<^sup>2"] by simp
    then have r1: "radius p \<le> radius ?q1" using Cons.prems(5) by simp
    have b1: "radius_of_mass (mass ?q1 + reach_gain p fs) \<le> R"
      using Cons.prems(6) by (simp add: gain add.assoc)
    have "eat_loop ?q1 (Suc i) fs (acc @ [i]) =
            Inr (?q1\<lparr>radius := radius_of_mass (mass ?q1 + reach_gain p fs),
                      mass := mass ?q1 + reach_gain p fs\<rparr>, fs,
                 (acc @ [i]) @ reach_indices p (Suc i) fs)"
    proof (rule Cons.IH)
      show "pos_x ?q1 = pos_x p" "pos_y ?q1 = pos_y p" using Cons.prems(1,2) by simp_all
      show "0 \<le> mass ?q1" using Cons.prems(3) by simp
      show "radius ?q1 = radius_of_mass (mass ?q1)" by simp
      show "radius p \<le> radius ?q1" by (rule r1)
      show "radius_of_mass (mass ?q1 + reach_gain p fs) \<le> R" by (rule b1)
      show "\<forall>f\<in>set fs. within_reach p f \<or> R \<le> centre_distance p f"
        using Cons.prems(7) by simp
    qed
    then show ?thesis
      using e True by (simp add: gain add.assoc)
  next
    case False
    have gain: "reach_gain p (f # fs) = reach_gain p fs"
      using False by (simp add: reach_gain_Cons)
    have "R \<le> centre_distance p f" using Cons.prems(7) False by simp
    moreover have "radius q \<le> R"
    proof -
      have "radius_of_mass (mass q) \<le> radius_of_mass (mass q + reach_gain p (f # fs))"
        by (rule radius_of_mass_mono) (use reach_gain_nonneg [of p "f # fs"] in simp)
      then show ?thesis using Cons.prems(4,6) by simp
    qed
    ultimately have "\<not> centre_distance q f < radius q" using dist by simp
    then have e: "eat q f = Inr (False, q, f)"
      by (simp add: eat_result [OF Cons.prems(3)])
    have "eat_loop q (Suc i) fs acc =
            Inr (q\<lparr>radius := radius_of_mass (mass q + reach_gain p fs),
                   mass := mass q + reach_gain p fs\<rparr>, fs,
                 acc @ reach_indices p (Suc i) fs)"
    proof (rule Cons.IH)
      show "radius_of_mass (mass q + reach_gain p fs) \<le> R"
        using Cons.prems(6) by (simp add: gain)
      show "\<forall>f\<in>set fs. within_reach p f \<or> R \<le> centre_distance p f"
        using Cons.prems(7) by simp
    qed (use Cons.prems in simp_all)
    then show ?thesis
      using e False by (simp add: gain)
  qed
qed

lemma set_reach_indices:
  "set (reach_indices p i fs) = {i + k |k. k < length fs \<and> within_reach p (fs ! k)}"
proof (induction fs arbitrary: i)
  case Nil
  then show ?case by simp
next
  case (Cons f fs)
  have "{i + k |k. k < length (f # fs) \<and> within_reach p ((f # fs) ! k)} =
          (if within_reach p f then {i} else {}) \<union>
          {Suc i + k |k. k < length fs \<and> within_reach p (fs ! k)}"
    (is "?L = ?R")
  proof (intro set_eqI iffI)
    fix j assume "j \<in> ?L"
    then obtain k where k: "j = i + k" "k < Suc (length fs)" "within_reach p ((f # fs) ! k)"
      by auto
    show "j \<in> ?R"
    proof (cases k)
      case 0
      with k show ?thesis by simp
    next
      case (Suc k')
      with k have "j = Suc i + k'" "k' < length fs" "within_reach p (fs ! k')" by simp_all
      then show ?thesis by blast
    qed
  next
    fix j assume "j \<in> ?R"
    then consider "within_reach p f" "j = i"
      | k' where "j = Suc i + k'" "k' < length fs" "within_reach p (fs ! k')"
      by (auto split: if_splits)
    then show "j \<in> ?L"
    proof cases
      case 1
      then have "j = i + 0 \<and> 0 < length (f # fs) \<and> within_reach p ((f # fs) ! 0)" by simp
      then show ?thesis by blast
    next
      case 2
      then have "j = i + Suc k' \<and> Suc k' < length (f # fs) \<and>
                 within_reach p ((f # fs) ! Suc k')" by simp
      then show ?thesis by blast
    qed
  qed
  then show ?case by (simp add: Cons.IH)
qed

lemma set_reach_indices_0:
  "set (reach_indices p 0 fs) = {k. k < length fs \<and> within_reach p (fs ! k)}"
  by (simp add: set_reach_indices)

lemma nths_reach_indices:
  "nths fs (set (reach_indices p 0 fs)) = filter (within_reach p) fs"
  by (simp add: set_reach_indices_0 filter_eq_nths)

lemma nths_not_reach_indices:
  "nths fs (- set (reach_indices p 0 fs)) = filter (\<lambda>f. \<not> within_reach p f) fs"
proof -
  have "nths fs (- set (reach_indices p 0 fs)) =
          nths fs {k. k < length fs \<and> \<not> within_reach p (fs ! k)}"
    by (rule nths_cong_below) (simp add: set_reach_indices_0)
  then show ?thesis by (simp add: filter_eq_nths)
qed

lemma length_reach_indices:
  "length (reach_indices p i fs) = length (filter (within_reach p) fs)"
  by (induction fs arbitrary: i) simp_all

lemma reach_gain_mset:
  assumes "mset gs = mset fs"
  shows "reach_gain p gs = reach_gain p fs"
proof -
  have "mset (map (\<lambda>f. (radius f)\<^sup>2) (filter (within_reach p) gs)) =
        mset (map (\<lambda>f. (radius f)\<^sup>2) (filter (within_reach p) fs))"
    using assms by simp
  then have "sum_mset (mset (map (\<lambda>f. (radius f)\<^sup>2) (filter (within_reach p) gs))) =
             sum_mset (mset (map (\<lambda>f. (radius f)\<^sup>2) (filter (within_reach p) fs)))"
    by (rule arg_cong)
  then show ?thesis
    unfolding reach_gain_def by (simp only: sum_mset_sum_list)
qed

lemma resolve_consumption_separated:
  assumes "0 \<le> mass p" and "radius p = radius_of_mass (mass p)"
    and "\<forall>f\<in>set fs. within_reach p f \<or>
           radius_of_mass (mass p + reach_gain p fs) \<le> centre_distance p f"
  shows "eat_loop p 0 fs [] =
           Inr (p\<lparr>radius := radius_of_mass (mass p + reach_gain p fs),
                  mass := mass p + reach_gain p fs\<rparr>, fs, reach_indices p 0 fs)"
    and "resolve_consumption p fs g n =
           Inr (p\<lparr>radius := radius_of_mass (mass p + reach_gain p fs),
                  mass := mass p + reach_gain p fs\<rparr>,
                filter (\<lambda>f. \<not> within_reach p f) fs @
                map (\<lambda>k. Food_init (g k)) [n..<n + length (filter (within_reach p) fs)],
                n + length (filter (within_reach p) fs))"
proof -
  have "eat_loop p 0 fs [] =
           Inr (p\<lparr>radius := radius_of_mass (mass p + reach_gain p fs),
                  mass := mass p + reach_gain p fs\<rparr>, fs, [] @ reach_indices p 0 fs)"
    by (rule eat_loop_separated [where R = "radius_of_mass (mass p + reach_gain p fs)"])
      (use assms in simp_all)
  then show l: "eat_loop p 0 fs [] =
           Inr (p\<lparr>radius := radius_of_mass (mass p + reach_gain p fs),
                  mass := mass p + reach_gain p fs\<rparr>, fs, reach_indices p 0 fs)"
    by simp
  from resolve_consumption_result [OF assms(1), of fs g n] l
  show "resolve_consumption p fs g n =
           Inr (p\<lparr>radius := radius_of_mass (mass p + reach_gain p fs),
                  mass := mass p + reach_gain p fs\<rparr>,
                filter (\<lambda>f. \<not> within_reach p f) fs @
                map (\<lambda>k. Food_init (g k)) [n..<n + length (filter (within_reach p) fs)],
                n + length (filter (within_reach p) fs))"
    by (auto simp: nths_not_reach_indices length_reach_indices)
qed

lemma sqrt_425_bounds: "41 / 2 < sqrt 425" "sqrt 425 \<le> 100"
proof -
  show "41 / 2 < sqrt 425" by (rule real_less_rsqrt) (simp add: power2_eq_square)
  show "sqrt 425 \<le> 100" by (rule real_le_lsqrt) simp_all
qed

lemma sqrt_1681_4: "sqrt (1681 / 4) = 41 / 2"
  by (rule real_sqrt_unique) (simp_all add: power2_eq_square)

text \<open>
  C4 as it is stated fails: \<^verbatim>\<open>eat\<close> lets the player grow at once, so a food that is
  tested later is tested against a larger radius. The player of radius 20 at the origin
  with a food at distance 5 and a food at distance \<open>41 / 2\<close>: in this order it eats both
  and ends with mass 450, as \<open>41 / 2 < sqrt 425\<close>; in the other order the far food is
  tested first, against the radius 20, stays in the list, and the mass ends at 425.
\<close>

theorem resolve_consumption_order_counterexample:
  "resolve_consumption (Player_init ''MyCell'' (0, 150, 255))
     [\<lparr>pos_x = 5, pos_y = 0, radius = 5, color = (50, 50, 50)\<rparr>,
      \<lparr>pos_x = 41 / 2, pos_y = 0, radius = 5, color = (60, 60, 60)\<rparr>]
     ((!) [\<lparr>u_x = 1 / 2, u_y = 1 / 4, c_r = 50, c_g = 60, c_b = 70\<rparr>,
           \<lparr>u_x = 1 / 4, u_y = 1 / 2, c_r = 70, c_g = 60, c_b = 50\<rparr>]) 0 =
     Inr ((Player_init ''MyCell'' (0, 150, 255))\<lparr>radius := radius_of_mass 450, mass := 450\<rparr>,
          [Food_init \<lparr>u_x = 1 / 2, u_y = 1 / 4, c_r = 50, c_g = 60, c_b = 70\<rparr>,
           Food_init \<lparr>u_x = 1 / 4, u_y = 1 / 2, c_r = 70, c_g = 60, c_b = 50\<rparr>], 2) \<and>
   resolve_consumption (Player_init ''MyCell'' (0, 150, 255))
     [\<lparr>pos_x = 41 / 2, pos_y = 0, radius = 5, color = (60, 60, 60)\<rparr>,
      \<lparr>pos_x = 5, pos_y = 0, radius = 5, color = (50, 50, 50)\<rparr>]
     ((!) [\<lparr>u_x = 1 / 2, u_y = 1 / 4, c_r = 50, c_g = 60, c_b = 70\<rparr>,
           \<lparr>u_x = 1 / 4, u_y = 1 / 2, c_r = 70, c_g = 60, c_b = 50\<rparr>]) 0 =
     Inr ((Player_init ''MyCell'' (0, 150, 255))\<lparr>radius := radius_of_mass 425, mass := 425\<rparr>,
          [\<lparr>pos_x = 41 / 2, pos_y = 0, radius = 5, color = (60, 60, 60)\<rparr>,
           Food_init \<lparr>u_x = 1 / 2, u_y = 1 / 4, c_r = 50, c_g = 60, c_b = 70\<rparr>], 1)"
proof -
  let ?P = "Player_init ''MyCell'' (0, 150, 255)"
  let ?P1 = "?P\<lparr>radius := radius_of_mass 425, mass := 425\<rparr>"
  let ?P2 = "?P\<lparr>radius := radius_of_mass 450, mass := 450\<rparr>"
  let ?A = "\<lparr>pos_x = 5, pos_y = 0, radius = 5, color = (50, 50, 50)\<rparr> :: food"
  let ?B = "\<lparr>pos_x = 41 / 2, pos_y = 0, radius = 5, color = (60, 60, 60)\<rparr> :: food"
  have r425: "radius_of_mass 425 = sqrt 425"
    using sqrt_425_bounds(1) by (simp add: radius_of_mass_def constants)
  have a: "eat ?P ?A = Inr (True, ?P1, ?A)"
    by (simp add: eat_def grow_def math_sqrt_def centre_distance_def radius_of_mass_def
        Player_init_def constants sqrt_25)
  have b: "eat ?P ?B = Inr (False, ?P, ?B)"
    by (simp add: eat_def math_sqrt_def centre_distance_def Player_init_def constants
        power2_eq_square sqrt_1681_4 [simplified power2_eq_square])
  have b1: "eat ?P1 ?B = Inr (True, ?P2, ?B)"
    using sqrt_425_bounds(1)
    by (simp add: eat_def grow_def math_sqrt_def centre_distance_def radius_of_mass_def
        Player_init_def constants power2_eq_square sqrt_1681_4)
  show ?thesis
    by (simp add: resolve_consumption_def a b b1 pop_def)
qed

text \<open>
  C4, as the code has it: the pass is independent of the order of the foods when no food
  lies between the radius the player has before the pass and the radius it has after
  eating every food within its reach. For a player whose mass is not negative and whose
  radius belongs to its mass, and two food lists that are permutations of each other in
  which every food is within reach of the player or at least as far from its centre as
  the radius of the mass \<open>mass p + reach_gain p fs\<close>, the pass returns for both lists the
  same player, with that mass, the same number of new foods, and the same foods up to
  order; the foods eaten are in both lists the foods within reach of the player as it was
  before the pass.
\<close>

theorem resolve_consumption_order:
  assumes "0 \<le> mass p" and "radius p = radius_of_mass (mass p)"
    and "mset gs = mset fs"
    and "\<forall>f\<in>set fs. within_reach p f \<or>
           radius_of_mass (mass p + reach_gain p fs) \<le> centre_distance p f"
  shows "\<exists>p' fs' gs' n' e1 e2.
           resolve_consumption p fs g n = Inr (p', fs', n') \<and>
           resolve_consumption p gs g n = Inr (p', gs', n') \<and>
           mass p' = mass p + reach_gain p fs \<and>
           mset fs' = mset gs' \<and>
           eat_loop p 0 fs [] = Inr (p', fs, e1) \<and>
           eat_loop p 0 gs [] = Inr (p', gs, e2) \<and>
           nths fs (set e1) = filter (within_reach p) fs \<and>
           nths gs (set e2) = filter (within_reach p) gs \<and>
           mset (nths fs (set e1)) = mset (nths gs (set e2))"
proof -
  let ?m = "mass p + reach_gain p fs"
  let ?p' = "p\<lparr>radius := radius_of_mass ?m, mass := ?m\<rparr>"
  let ?k = "length (filter (within_reach p) fs)"
  let ?new = "map (\<lambda>k. Food_init (g k)) [n..<n + ?k]"
  have gain: "reach_gain p gs = reach_gain p fs"
    by (rule reach_gain_mset) (rule assms(3))
  have "set gs = set fs" using assms(3) by (rule mset_eq_setD)
  then have sep: "\<forall>f\<in>set gs. within_reach p f \<or>
           radius_of_mass (mass p + reach_gain p gs) \<le> centre_distance p f"
    using assms(4) gain by simp
  have within: "mset (filter (within_reach p) gs) = mset (filter (within_reach p) fs)"
    using assms(3) by simp
  have beyond: "mset (filter (\<lambda>f. \<not> within_reach p f) gs) =
                mset (filter (\<lambda>f. \<not> within_reach p f) fs)"
    using assms(3) by simp
  have k: "length (filter (within_reach p) gs) = ?k"
    using within by (rule mset_eq_length)
  have lf: "eat_loop p 0 fs [] = Inr (?p', fs, reach_indices p 0 fs)"
    by (rule resolve_consumption_separated(1) [OF assms(1,2,4)])
  have lg: "eat_loop p 0 gs [] = Inr (?p', gs, reach_indices p 0 gs)"
    using resolve_consumption_separated(1) [OF assms(1,2) sep] by (simp add: gain)
  have rf: "resolve_consumption p fs g n =
              Inr (?p', filter (\<lambda>f. \<not> within_reach p f) fs @ ?new, n + ?k)"
    by (rule resolve_consumption_separated(2) [OF assms(1,2,4)])
  have rg: "resolve_consumption p gs g n =
              Inr (?p', filter (\<lambda>f. \<not> within_reach p f) gs @ ?new, n + ?k)"
    using resolve_consumption_separated(2) [OF assms(1,2) sep, of g n] by (simp add: gain k)
  have m: "mass ?p' = mass p + reach_gain p fs" by simp
  have ms: "mset (filter (\<lambda>f. \<not> within_reach p f) fs @ ?new) =
            mset (filter (\<lambda>f. \<not> within_reach p f) gs @ ?new)"
    using beyond by simp
  have nf: "nths fs (set (reach_indices p 0 fs)) = filter (within_reach p) fs"
    by (rule nths_reach_indices)
  have ng: "nths gs (set (reach_indices p 0 gs)) = filter (within_reach p) gs"
    by (rule nths_reach_indices)
  have me: "mset (nths fs (set (reach_indices p 0 fs))) =
            mset (nths gs (set (reach_indices p 0 gs)))"
    using within by (simp only: nf ng)
  from rf rg m ms lf lg nf ng me show ?thesis by blast
qed

theorem resolve_consumption_order_witness:
  "0 \<le> mass (Player_init ''MyCell'' (0, 150, 255)) \<and>
   radius (Player_init ''MyCell'' (0, 150, 255)) =
     radius_of_mass (mass (Player_init ''MyCell'' (0, 150, 255))) \<and>
   mset [\<lparr>pos_x = 100, pos_y = 0, radius = 5, color = (60, 60, 60)\<rparr>,
         \<lparr>pos_x = 5, pos_y = 0, radius = 5, color = (50, 50, 50)\<rparr>] =
   mset [\<lparr>pos_x = 5, pos_y = 0, radius = 5, color = (50, 50, 50)\<rparr>,
         \<lparr>pos_x = 100, pos_y = 0, radius = 5, color = (60, 60, 60)\<rparr>] \<and>
   within_reach (Player_init ''MyCell'' (0, 150, 255))
     \<lparr>pos_x = 5, pos_y = 0, radius = 5, color = (50, 50, 50)\<rparr> \<and>
   reach_gain (Player_init ''MyCell'' (0, 150, 255))
     [\<lparr>pos_x = 5, pos_y = 0, radius = 5, color = (50, 50, 50)\<rparr>,
      \<lparr>pos_x = 100, pos_y = 0, radius = 5, color = (60, 60, 60)\<rparr>] = 25 \<and>
   radius_of_mass 425 \<le> centre_distance (Player_init ''MyCell'' (0, 150, 255))
     \<lparr>pos_x = 100, pos_y = 0, radius = 5, color = (60, 60, 60)\<rparr> \<and>
   (\<exists>p' fs' gs' n'.
      resolve_consumption (Player_init ''MyCell'' (0, 150, 255))
        [\<lparr>pos_x = 5, pos_y = 0, radius = 5, color = (50, 50, 50)\<rparr>,
         \<lparr>pos_x = 100, pos_y = 0, radius = 5, color = (60, 60, 60)\<rparr>]
        (\<lambda>k. \<lparr>u_x = 1 / 2, u_y = 1 / 4, c_r = 50, c_g = 60, c_b = 70\<rparr>) 0 = Inr (p', fs', n') \<and>
      resolve_consumption (Player_init ''MyCell'' (0, 150, 255))
        [\<lparr>pos_x = 100, pos_y = 0, radius = 5, color = (60, 60, 60)\<rparr>,
         \<lparr>pos_x = 5, pos_y = 0, radius = 5, color = (50, 50, 50)\<rparr>]
        (\<lambda>k. \<lparr>u_x = 1 / 2, u_y = 1 / 4, c_r = 50, c_g = 60, c_b = 70\<rparr>) 0 = Inr (p', gs', n') \<and>
      mass p' = 425 \<and> mset fs' = mset gs')"
proof -
  let ?P = "Player_init ''MyCell'' (0, 150, 255)"
  let ?A = "\<lparr>pos_x = 5, pos_y = 0, radius = 5, color = (50, 50, 50)\<rparr> :: food"
  let ?C = "\<lparr>pos_x = 100, pos_y = 0, radius = 5, color = (60, 60, 60)\<rparr> :: food"
  let ?g = "\<lambda>k::nat. \<lparr>u_x = 1 / 2, u_y = 1 / 4, c_r = 50, c_g = 60, c_b = 70\<rparr>"
  have m: "0 \<le> mass ?P" "mass ?P = 400" by (simp_all add: Player_init_def constants)
  have r: "radius ?P = radius_of_mass (mass ?P)"
    by (simp add: Player_init_def radius_of_mass_def constants sqrt_400)
  have p: "mset [?C, ?A] = mset [?A, ?C]" by simp
  have wa: "within_reach ?P ?A"
    by (simp add: within_reach_def centre_distance_def Player_init_def constants)
  have wc: "\<not> within_reach ?P ?C"
    by (simp add: within_reach_def centre_distance_def Player_init_def constants)
  have gain: "reach_gain ?P [?A, ?C] = 25"
    using wa wc by (simp add: reach_gain_def)
  have far: "radius_of_mass 425 \<le> centre_distance ?P ?C"
    using sqrt_425_bounds(2)
    by (simp add: radius_of_mass_def centre_distance_def Player_init_def constants)
  have sep: "\<forall>f\<in>set [?A, ?C]. within_reach ?P f \<or>
               radius_of_mass (mass ?P + reach_gain ?P [?A, ?C]) \<le> centre_distance ?P f"
    using wa far by (simp add: gain m(2))
  from resolve_consumption_order [OF m(1) r p sep, of ?g 0] m(2) gain wa far r p
  show ?thesis by (simp only: m(1)) auto
qed

subsection \<open>The states of a run\<close>

lemma move_mass_radius: "move p = Inr p' \<Longrightarrow> mass p' = mass p \<and> radius p' = radius p"
  by (auto simp: move_def Let_def split: if_splits sum.splits)

lemma eat_loop_invariant:
  assumes "eat_loop p i fs acc = Inr (p', fs', eaten)"
    and "radius p = radius_of_mass (mass p)"
  shows "radius p' = radius_of_mass (mass p') \<and> mass p \<le> mass p'"
  using assms
proof (induction fs arbitrary: p i acc fs' eaten)
  case Nil
  then show ?case by simp
next
  case (Cons f fs)
  from Cons.prems(1) obtain b p1 f1 fs2
    where e: "eat p f = Inr (b, p1, f1)"
      and l: "eat_loop p1 (Suc i) fs (if b then acc @ [i] else acc) = Inr (p', fs2, eaten)"
    by (auto split: sum.splits prod.splits)
  have p1: "p1 = (if b then p\<lparr>radius := radius_of_mass (mass p + (radius f)\<^sup>2),
                               mass := mass p + (radius f)\<^sup>2\<rparr> else p)"
    by (rule eat_returned(3) [OF e])
  have r1: "radius p1 = radius_of_mass (mass p1)"
    using p1 Cons.prems(2) by simp
  have "0 \<le> (radius f)\<^sup>2" by simp
  then have m1: "mass p \<le> mass p1" using p1 by simp
  from Cons.IH [OF l r1] m1 show ?case by simp
qed

lemma resolve_consumption_invariant:
  assumes "resolve_consumption p fs g n = Inr (p', fs', n')"
    and "radius p = radius_of_mass (mass p)"
  shows "radius p' = radius_of_mass (mass p') \<and> mass p \<le> mass p'"
proof -
  from assms(1) obtain fs1 eaten where "eat_loop p 0 fs [] = Inr (p', fs1, eaten)"
    by (auto simp: resolve_consumption_def split: sum.splits prod.splits)
  then show ?thesis using assms(2) by (rule eat_loop_invariant)
qed

lemma reachable_invariant:
  assumes "reachable p"
  shows "radius p = radius_of_mass (mass p) \<and> INITIAL_PLAYER_RADIUS\<^sup>2 \<le> mass p"
  using assms
proof (induction rule: reachable.induct)
  case (created nm col)
  show ?case by (simp add: Player_init_def radius_of_mass_def constants sqrt_400)
next
  case (requested p av busy response)
  then show ?case
    by (simp add: request_description_def Let_def split: outcome.splits)
next
  case (targeted p mouse_x mouse_y camera_x camera_y)
  then show ?case by (simp add: update_target_def)
next
  case (moved p p')
  then show ?case using move_mass_radius [of p p'] by simp
next
  case (passed p fs g n p' fs' n')
  from resolve_consumption_invariant [OF passed.hyps(2)] passed.IH
  show ?case by simp
next
  case (ticked p dt)
  then show ?case by (simp add: update_description_timer_def Let_def)
qed

lemma reachable_radius:
  assumes "reachable p"
  shows "INITIAL_PLAYER_RADIUS \<le> radius p"
proof -
  from reachable_invariant [OF assms]
  have r: "radius p = radius_of_mass (mass p)" and m: "400 \<le> mass p"
    by (simp_all add: constants)
  from m have "sqrt 400 \<le> sqrt (mass p)" by (rule real_sqrt_le_mono)
  then show ?thesis using r by (simp add: radius_of_mass_def constants sqrt_400)
qed

text \<open>
  In every state that a run reaches, the radius is at least the initial radius, where the
  floor of the speed takes over: the speed of every step of a run is \<open>0.1\<close>.
\<close>

lemma reachable_speed:
  assumes "reachable p"
  shows "move_speed (radius p) = Inr (1 / 10)"
proof -
  from reachable_radius [OF assms] have r: "20 \<le> radius p" by (simp add: constants)
  then have "2 / radius p \<le> 1 / 10" by (simp add: field_simps)
  then show ?thesis using r by (simp add: move_speed_def constants max_def)
qed

text \<open>
  C5 as it is stated fails at \<open>mass_increase = 0\<close>, which \<open>mass_increase \<ge> 0\<close> admits:
  the mass of the initial player stays 400.
\<close>

theorem grow_zero_counterexample:
  "grow (Player_init ''MyCell'' (0, 150, 255)) 0 = Inr (Player_init ''MyCell'' (0, 150, 255)) \<and>
   \<not> mass (Player_init ''MyCell'' (0, 150, 255)) < mass (Player_init ''MyCell'' (0, 150, 255))"
  by (simp add: grow_def math_sqrt_def Player_init_def constants sqrt_400)

text \<open>
  C5, as the code has it: for a mass that is not negative and \<open>mass_increase \<ge> 0\<close>,
  \<^verbatim>\<open>grow\<close> returns, the new mass is the old one plus \<open>mass_increase\<close>, so it does not
  decrease, and it is strictly larger exactly when \<open>mass_increase > 0\<close>; the new radius
  is \<open>max (sqrt mass) MIN_PLAYER_RADIUS\<close> of the new mass. The radius is this function of
  the mass in every state of a run: in the player that \<^verbatim>\<open>Player(\<dots>)\<close> creates, and after
  every call of the handler of the key G, of \<^verbatim>\<open>update_target\<close>, of \<^verbatim>\<open>move\<close>, of the
  consumption pass and of \<^verbatim>\<open>update_description_timer\<close>.
\<close>

theorem grow_mass_radius:
  "(0 \<le> d \<and> 0 \<le> mass p \<longrightarrow>
      (\<exists>p'. grow p d = Inr p' \<and> mass p' = mass p + d \<and> mass p \<le> mass p' \<and>
         (mass p < mass p' \<longleftrightarrow> 0 < d) \<and>
         radius p' = max (sqrt (mass p')) MIN_PLAYER_RADIUS)) \<and>
   (reachable q \<longrightarrow> radius q = max (sqrt (mass q)) MIN_PLAYER_RADIUS)"
proof -
  have "\<exists>p'. grow p d = Inr p' \<and> mass p' = mass p + d \<and> mass p \<le> mass p' \<and>
         (mass p < mass p' \<longleftrightarrow> 0 < d) \<and>
         radius p' = max (sqrt (mass p')) MIN_PLAYER_RADIUS"
    if "0 \<le> d" and "0 \<le> mass p"
  proof -
    from that have "0 \<le> mass p + d" by simp
    from grow_Inr [OF this] show ?thesis using that(1) by simp
  qed
  moreover have "radius q = max (sqrt (mass q)) MIN_PLAYER_RADIUS" if "reachable q"
    using reachable_invariant [OF that] by (simp add: radius_of_mass_def)
  ultimately show ?thesis by blast
qed

theorem grow_mass_radius_witness:
  "(0::real) \<le> 25 \<and> 0 \<le> mass (Player_init ''MyCell'' (0, 150, 255)) \<and>
   reachable ((Player_init ''MyCell'' (0, 150, 255))\<lparr>radius := sqrt 425, mass := 425\<rparr>) \<and>
   grow (Player_init ''MyCell'' (0, 150, 255)) 25 =
     Inr ((Player_init ''MyCell'' (0, 150, 255))\<lparr>radius := sqrt 425, mass := 425\<rparr>) \<and>
   radius ((Player_init ''MyCell'' (0, 150, 255))\<lparr>radius := sqrt 425, mass := 425\<rparr>) =
     max (sqrt 425) MIN_PLAYER_RADIUS"
proof -
  let ?g = "\<lambda>k::nat. \<lparr>u_x = 1 / 2, u_y = 1 / 4, c_r = 50, c_g = 60, c_b = 70\<rparr>"
  let ?P = "Player_init ''MyCell'' (0, 150, 255)"
  let ?Q = "?P\<lparr>radius := sqrt 425, mass := 425\<rparr>"
  let ?A = "\<lparr>pos_x = 5, pos_y = 0, radius = 5, color = (50, 50, 50)\<rparr> :: food"
  have big: "5 \<le> sqrt 425" by (rule real_le_rsqrt) simp
  have m: "0 \<le> mass ?P" by (simp add: Player_init_def constants)
  have gr: "grow ?P 25 = Inr ?Q"
    using big by (simp add: grow_def math_sqrt_def Player_init_def constants max_def)
  have e: "eat ?P ?A = Inr (True, ?Q, ?A)"
    using big
    by (simp add: eat_def grow_def math_sqrt_def Player_init_def constants sqrt_25 max_def)
  have r: "resolve_consumption ?P [?A] ?g 0 = Inr (?Q, [Food_init (?g 0)], 1)"
    by (simp add: resolve_consumption_def e pop_def)
  have "reachable ?P" by (rule reachable.created)
  then have re: "reachable ?Q" using r by (rule reachable.passed)
  from grow_mass_radius [of 25 ?P ?Q] m re gr big
  show ?thesis by (simp add: constants max_def)
qed

end
